theory Spec2Isabelle
  imports Complex_Main
begin

section \<open>Replay memory and training loop of the DQN agent\<close>

text \<open>
  The development embeds \<^verbatim>\<open>DeepAgent/utils/buffer.py\<close> (the uniform and the
  prioritized replay buffer) and the parts of \<^verbatim>\<open>Bin/dqn_v2.py\<close> that decide the
  exploration rate, the bootstrapped target and the cadence of the training loop.
  In the buffers Python floats are modelled by \<^typ>\<open>real\<close>: comparison, maximum and
  minimum are exact on floats, and addition and division are taken without rounding;
  a non-finite float (NaN, infinity) is \<open>None\<close> where the sampling probabilities can
  produce one. The learner's target is computed on float32 values with their
  infinities and NaN.
\<close>

subsection \<open>Errors and the random source\<close>

datatype error = ValueError | IndexError | ZeroDivisionError

text \<open>
  NumPy's global generator is threaded explicitly: \<open>draws\<close> is the sequence of variates
  it will produce and \<open>pos\<close> the number consumed so far. \<open>random_sample\<close> is the
  generator's basic draw, a float of the half-open interval from 0 to 1; taking the
  fractional part keeps every draw in that interval whatever the sequence holds.
\<close>

record rng =
  draws :: "nat \<Rightarrow> real"
  pos :: nat

definition random_sample :: "rng \<Rightarrow> real \<times> rng" where
  "random_sample g = (frac (draws g (pos g)), g\<lparr>pos := Suc (pos g)\<rparr>)"

text \<open>
  \<^verbatim>\<open>np.random.randint(low, high, dtype=np.int32)\<close>: an integer of \<open>[low, high)\<close>;
  raises when the range is empty or \<open>high\<close> does not fit the dtype.
\<close>

definition randint :: "int \<Rightarrow> int \<Rightarrow> rng \<Rightarrow> error + (int \<times> rng)" where
  "randint low high g =
     (if high \<le> low \<or> 2147483648 < high then Inl ValueError
      else (let (u, g') = random_sample g
            in Inr (low + \<lfloor>u * of_int (high - low)\<rfloor>, g')))"

subsection \<open>Transitions and sequence indexing\<close>

record 's Transition =
  state :: 's
  action :: int
  reward :: real
  done_t :: bool
  new_state :: 's

text \<open>
  Python's \<^verbatim>\<open>xs[i]\<close> on a list or deque: a negative index counts from the end, an index
  out of range raises \<^verbatim>\<open>IndexError\<close>.
\<close>

definition py_getitem :: "'a list \<Rightarrow> int \<Rightarrow> error + 'a" where
  "py_getitem xs i =
     (if 0 \<le> i \<and> i < int (length xs) then Inr (xs ! nat i)
      else if - int (length xs) \<le> i \<and> i < 0 then Inr (xs ! nat (int (length xs) + i))
      else Inl IndexError)"

text \<open>
  \<^verbatim>\<open>collections.deque(maxlen=n).append(x)\<close>: the item is appended on the right, and one
  item is dropped from the left when the length then exceeds \<open>maxlen\<close>.
\<close>

definition deque_append :: "nat \<Rightarrow> 'a list \<Rightarrow> 'a \<Rightarrow> 'a list" where
  "deque_append maxlen xs x =
     (let ys = xs @ [x] in if maxlen < length ys then tl ys else ys)"

subsection \<open>The uniform buffer: class ExperienceReplay\<close>

record 't ExperienceReplay =
  size_b :: nat
  batch_size :: nat
  current_size :: nat
  buffer :: "'t list"

text \<open>
  Modelled from the spec: \<^verbatim>\<open>IBaseBuffer.__init__\<close> (the interface module is not part
  of the sources at hand) stores the capacity and the batch size given at construction
  and starts with \<open>current_size\<close> 0; \<^verbatim>\<open>ExperienceReplay.__init__\<close> adds the empty
  bounded deque.
\<close>

definition ER_init :: "nat \<Rightarrow> nat \<Rightarrow> 't ExperienceReplay" where
  "ER_init n bs = \<lparr>size_b = n, batch_size = bs, current_size = 0, buffer = []\<rparr>"

definition ER_append :: "'t ExperienceReplay \<Rightarrow> 't \<Rightarrow> 't ExperienceReplay" where
  "ER_append b transition =
     (let buf = deque_append (size_b b) (buffer b) transition
      in b\<lparr>buffer := buf, current_size := length buf\<rparr>)"

text \<open>
  \<^verbatim>\<open>get_sample_indices\<close>: the loop draws until \<open>batch_size\<close> indices are collected.
  The method returns the indices; the buffer object is returned beside them so that its
  state after the call can be compared with the state before.
\<close>

function ER_sample_loop ::
  "('t, 'm) ExperienceReplay_scheme \<Rightarrow> int list \<Rightarrow> rng \<Rightarrow> error + (int list \<times> rng)" where
  "ER_sample_loop b indices g =
     (if length indices < batch_size b then
        (case randint 0 (int (size_b b)) g of
           Inl e \<Rightarrow> Inl e
         | Inr (index, g') \<Rightarrow> ER_sample_loop b (indices @ [index]) g')
      else Inr (indices, g))"
  by pat_completeness auto
termination
  by (relation "measure (\<lambda>(b, indices, g). batch_size b - length indices)") auto

declare ER_sample_loop.simps [simp del]

definition ER_get_sample_indices ::
  "'t ExperienceReplay \<Rightarrow> rng \<Rightarrow> error + (int list \<times> 't ExperienceReplay \<times> rng)" where
  "ER_get_sample_indices b g =
     (case ER_sample_loop b [] g of
        Inl e \<Rightarrow> Inl e
      | Inr (indices, g') \<Rightarrow> Inr (indices, b, g'))"

text \<open>
  \<^verbatim>\<open>get_sample\<close>: one pass over the indices, each read raising on an index out of
  range; the five batches are the fields of the gathered transitions, in index order.
  The prioritized buffer inherits the method unchanged.
\<close>

fun gather :: "'a list \<Rightarrow> int list \<Rightarrow> error + 'a list" where
  "gather xs [] = Inr []"
| "gather xs (index # indices) =
     (case py_getitem xs index of
        Inl e \<Rightarrow> Inl e
      | Inr item \<Rightarrow> (case gather xs indices of
                       Inl e \<Rightarrow> Inl e
                     | Inr items \<Rightarrow> Inr (item # items)))"

definition get_sample ::
  "('s Transition, 'm) ExperienceReplay_scheme \<Rightarrow> int list \<Rightarrow>
   error + (('s list \<times> int list \<times> real list \<times> bool list \<times> 's list) \<times>
            ('s Transition, 'm) ExperienceReplay_scheme)" where
  "get_sample b indices =
     (case gather (buffer b) indices of
        Inl e \<Rightarrow> Inl e
      | Inr items \<Rightarrow>
          Inr ((map state items, map action items, map reward items,
                map done_t items, map new_state items), b))"

subsection \<open>NumPy operations used by the prioritized buffer\<close>

text \<open>
  \<^verbatim>\<open>a.max()\<close> and \<^verbatim>\<open>np.argmin(a)\<close> raise \<^verbatim>\<open>ValueError\<close> on an empty array;
  \<open>argmin\<close> returns the first position of the minimum.
\<close>

fun np_max :: "real list \<Rightarrow> error + real" where
  "np_max [] = Inl ValueError"
| "np_max (x # xs) = Inr (fold max xs x)"

fun argmin_from :: "real list \<Rightarrow> nat \<Rightarrow> nat \<Rightarrow> real \<Rightarrow> nat" where
  "argmin_from [] i best_i best = best_i"
| "argmin_from (y # ys) i best_i best =
     (if y < best then argmin_from ys (Suc i) i y else argmin_from ys (Suc i) best_i best)"

fun np_argmin :: "real list \<Rightarrow> error + nat" where
  "np_argmin [] = Inl ValueError"
| "np_argmin (x # xs) = Inr (argmin_from xs 1 0 x)"

text \<open>
  \<^verbatim>\<open>x ** a\<close> on floats: 1 for a zero exponent, the real power for a positive base, 0
  or infinity for a zero base, a signed power for a negative base with an integral
  exponent and NaN for a negative base otherwise. \<open>None\<close> stands for the non-finite
  results.
\<close>

definition np_power :: "real \<Rightarrow> real \<Rightarrow> real option" where
  "np_power x a =
     (if a = 0 then Some 1
      else if 0 < x then Some (x powr a)
      else if x = 0 then (if 0 < a then Some 0 else None)
      else if a = of_int \<lfloor>a\<rfloor>
        then Some ((if even \<lfloor>a\<rfloor> then 1 else - 1) * ((- x) powr a))
      else None)"

definition power_array :: "real list \<Rightarrow> real \<Rightarrow> real list option" where
  "power_array xs a = those (map (\<lambda>x. np_power x a) xs)"

text \<open>
  \<^verbatim>\<open>probs /= probs.sum()\<close>: dividing a non-empty array by a zero sum leaves NaN or
  infinite entries.
\<close>

definition divide_by_sum :: "real list \<Rightarrow> real list option" where
  "divide_by_sum probs =
     (if probs \<noteq> [] \<and> sum_list probs = 0 then None
      else Some (map (\<lambda>q. q / sum_list probs) probs))"

fun cumsum_from :: "real \<Rightarrow> real list \<Rightarrow> real list" where
  "cumsum_from acc [] = []"
| "cumsum_from acc (x # xs) = (acc + x) # cumsum_from (acc + x) xs"

definition cumsum :: "real list \<Rightarrow> real list" where
  "cumsum xs = cumsum_from 0 xs"

text \<open>
  \<^verbatim>\<open>cdf.searchsorted(x, side='right')\<close> on a sorted array: the number of entries that
  are at most \<open>x\<close>. \<^verbatim>\<open>np.unique(.., return_index=True)\<close> followed by the sort of the
  positions and \<^verbatim>\<open>take\<close> keeps the first occurrence of every value, in order.
\<close>

definition searchsorted_right :: "real list \<Rightarrow> real \<Rightarrow> nat" where
  "searchsorted_right cdf x = length (takeWhile (\<lambda>c. c \<le> x) cdf)"

definition unique_first :: "nat list \<Rightarrow> nat list" where
  "unique_first xs = rev (remdups (rev xs))"

fun rand :: "nat \<Rightarrow> rng \<Rightarrow> real list \<times> rng" where
  "rand 0 g = ([], g)"
| "rand (Suc k) g = (fst (random_sample g) # fst (rand k (snd (random_sample g))),
                     snd (rand k (snd (random_sample g))))"

definition zero_found :: "real list \<Rightarrow> nat list \<Rightarrow> real list" where
  "zero_found p found = fold (\<lambda>i q. q[i := 0]) found p"

definition draw_new :: "real list \<Rightarrow> real list \<Rightarrow> nat list" where
  "draw_new p x =
     (let cdf = cumsum p;
          cdf = map (\<lambda>c. c / last cdf) cdf
      in unique_first (map (searchsorted_right cdf) x))"

text \<open>
  The sampling loop of \<^verbatim>\<open>RandomState.choice(a, size, replace=False, p=p)\<close> (library
  code, written here from NumPy's implementation): every round draws one variate per
  missing index, zeroes the probabilities of the indices found so far, looks the
  variates up in the normalised cumulative sums and keeps the distinct new indices.
\<close>

lemma length_rand: "length (fst (rand k g)) = k"
  by (induction k arbitrary: g) auto

lemma unique_first_nonempty: "xs \<noteq> [] \<Longrightarrow> unique_first xs \<noteq> []"
  by (simp add: unique_first_def)

lemma draw_new_nonempty: "x \<noteq> [] \<Longrightarrow> draw_new p x \<noteq> []"
  by (simp add: draw_new_def Let_def unique_first_nonempty)

function choice_loop :: "nat \<Rightarrow> real list \<Rightarrow> nat list \<Rightarrow> rng \<Rightarrow> nat list \<times> rng" where
  "choice_loop n p found g =
     (if length found < n then
        choice_loop n (if 0 < length found then zero_found p found else p)
          (found @ draw_new (if 0 < length found then zero_found p found else p)
                      (fst (rand (n - length found) g)))
          (snd (rand (n - length found) g))
      else (found, g))"
  by pat_completeness auto
termination
proof (relation "measure (\<lambda>(n, p, found, g). n - length found)")
  show "wf (measure (\<lambda>(n, p, found, g). n - length found))" by simp
next
  fix n :: nat and p :: "real list" and found :: "nat list" and g :: rng
  assume less: "length found < n"
  let ?x = "fst (rand (n - length found) g)"
  let ?p = "if 0 < length found then zero_found p found else p"
  have "?x \<noteq> []"
    using less length_rand [of "n - length found" g] by auto
  then have "draw_new ?p ?x \<noteq> []"
    by (rule draw_new_nonempty)
  then have "0 < length (draw_new ?p ?x)"
    by (rule iffD2 [OF length_greater_0_conv])
  with less have "n - (length found + length (draw_new ?p ?x)) < n - length found"
    by arith
  then show "((n, ?p, found @ draw_new ?p ?x, snd (rand (n - length found) g)),
              (n, p, found, g)) \<in> measure (\<lambda>(n, p, found, g). n - length found)"
    by (simp only: in_measure prod.case length_append)
qed

declare choice_loop.simps [simp del]

text \<open>
  \<^verbatim>\<open>np.random.choice(a, size, p=p, replace=False)\<close> for an integer \<open>a\<close>: the checks
  of the arguments in NumPy's order, each raising \<^verbatim>\<open>ValueError\<close>, then the sampling
  loop. \<open>atol\<close> is the tolerance of the check that the probabilities sum to one, the
  square root of the double precision machine epsilon.
\<close>

definition atol :: real where
  "atol = 1 / 2 ^ 26"

definition choice :: "nat \<Rightarrow> nat \<Rightarrow> real list \<Rightarrow> rng \<Rightarrow> error + (nat list \<times> rng)" where
  "choice pop_size n p g =
     (if pop_size = 0 \<and> n \<noteq> 0 then Inl ValueError
      else if length p \<noteq> pop_size then Inl ValueError
      else if \<exists>q \<in> set p. q < 0 then Inl ValueError
      else if atol < \<bar>sum_list p - 1\<bar> then Inl ValueError
      else if pop_size < n then Inl ValueError
      else if length (filter (\<lambda>q. 0 < q) p) < n then Inl ValueError
      else Inr (choice_loop n p [] g))"

subsection \<open>The prioritized buffer: class PrioritizedExperienceReplay\<close>

record 't PrioritizedExperienceReplay = "'t ExperienceReplay" +
  priorities :: "real list"
  prob_alpha :: real
  epsilon :: real

text \<open>
  \<^verbatim>\<open>__init__\<close>: the base class stores capacity and batch size (see \<open>ER_init\<close>), the
  transition store is an empty list and the priorities an empty array.
\<close>

definition PER_init :: "nat \<Rightarrow> nat \<Rightarrow> real \<Rightarrow> real \<Rightarrow> 't PrioritizedExperienceReplay" where
  "PER_init n bs alpha eps =
     \<lparr>size_b = n, batch_size = bs, current_size = 0, buffer = [],
      priorities = [], prob_alpha = alpha, epsilon = eps\<rparr>"

text \<open>
  \<^verbatim>\<open>append\<close>. Under capacity the transition and its priority are appended. At
  capacity the first statement of the branch, \<^verbatim>\<open>np.argmin\<close>, raises on an empty
  array; the store assignment raises on a position outside the list; the right-hand
  side \<^verbatim>\<open>self.priorities.max()\<close> is evaluated before the priority is overwritten.
\<close>

definition PER_append ::
  "'t PrioritizedExperienceReplay \<Rightarrow> 't \<Rightarrow> error + 't PrioritizedExperienceReplay" where
  "PER_append b transition =
     (if current_size b < size_b b then
        (case (if length (priorities b) = 0 then Inr (epsilon b) else np_max (priorities b)) of
           Inl e \<Rightarrow> Inl e
         | Inr v \<Rightarrow>
             Inr (b\<lparr>buffer := buffer b @ [transition],
                    current_size := length (buffer b @ [transition]),
                    priorities := priorities b @ [v]\<rparr>))
      else
        (case np_argmin (priorities b) of
           Inl e \<Rightarrow> Inl e
         | Inr idx \<Rightarrow>
             if length (buffer b) \<le> idx then Inl IndexError
             else (case np_max (priorities b) of
                     Inl e \<Rightarrow> Inl e
                   | Inr v \<Rightarrow>
                       Inr (b\<lparr>buffer := (buffer b)[idx := transition],
                              current_size := length ((buffer b)[idx := transition]),
                              priorities := (priorities b)[idx := v]\<rparr>))))"

text \<open>
  \<^verbatim>\<open>get_sample_indices\<close>: \<open>probs\<close> is a new array, divided in place by its sum and
  handed to \<^verbatim>\<open>np.random.choice\<close> with the length of the store as population. A NaN
  among the probabilities makes \<^verbatim>\<open>choice\<close> raise.
\<close>

definition sampling_probs :: "('t, 'm) PrioritizedExperienceReplay_scheme \<Rightarrow> real list option" where
  "sampling_probs b =
     (case power_array (priorities b) (prob_alpha b) of
        None \<Rightarrow> None
      | Some probs \<Rightarrow> divide_by_sum probs)"

definition PER_get_sample_indices ::
  "'t PrioritizedExperienceReplay \<Rightarrow> rng \<Rightarrow>
   error + (int list \<times> 't PrioritizedExperienceReplay \<times> rng)" where
  "PER_get_sample_indices b g =
     (case sampling_probs b of
        None \<Rightarrow> Inl ValueError
      | Some probs \<Rightarrow>
          (case choice (length (buffer b)) (batch_size b) probs g of
             Inl e \<Rightarrow> Inl e
           | Inr (indices, g') \<Rightarrow> Inr (map int indices, b, g')))"

text \<open>
  \<^verbatim>\<open>update_priorities\<close>: \<^verbatim>\<open>self.priorities[indices] = abs_errors + self.epsilon\<close> with
  one-dimensional arrays. The values must have the shape of the indices or a single
  entry (which is broadcast); every index must lie within the array, a negative one
  counting from the end; the writes happen in order, so that the last write to a
  repeated index stays. Both checks precede the first write.
\<close>

definition broadcast :: "'a list \<Rightarrow> nat \<Rightarrow> 'a list option" where
  "broadcast xs n =
     (if length xs = n then Some xs
      else if length xs = 1 then Some (replicate n (hd xs))
      else None)"

definition wrap_index :: "nat \<Rightarrow> int \<Rightarrow> nat" where
  "wrap_index n i = nat (if i < 0 then int n + i else i)"

definition PER_update_priorities ::
  "'t PrioritizedExperienceReplay \<Rightarrow> int list \<Rightarrow> real list \<Rightarrow>
   error + 't PrioritizedExperienceReplay" where
  "PER_update_priorities b indices abs_errors =
     (case broadcast (map (\<lambda>e. e + epsilon b) abs_errors) (length indices) of
        None \<Rightarrow> Inl ValueError
      | Some vals \<Rightarrow>
          if \<exists>i \<in> set indices. i < - int (length (priorities b)) \<or> int (length (priorities b)) \<le> i
          then Inl IndexError
          else Inr (b\<lparr>priorities :=
                      fold (\<lambda>(i, v) ps. ps[wrap_index (length ps) i := v])
                        (zip indices vals) (priorities b)\<rparr>))"

text \<open>
  A call that raises leaves the object as it was: in each method above every check
  precedes the first write. \<open>PER_run\<close> is the state after a sequence of calls, a
  failing call being skipped.
\<close>

datatype 't PER_op = Append 't | UpdatePriorities "int list" "real list"

fun PER_call :: "'t PrioritizedExperienceReplay \<Rightarrow> 't PER_op \<Rightarrow>
    error + 't PrioritizedExperienceReplay" where
  "PER_call b (Append transition) = PER_append b transition"
| "PER_call b (UpdatePriorities indices abs_errors) = PER_update_priorities b indices abs_errors"

fun PER_run :: "'t PrioritizedExperienceReplay \<Rightarrow> 't PER_op list \<Rightarrow>
    't PrioritizedExperienceReplay" where
  "PER_run b [] = b"
| "PER_run b (c # cs) =
     PER_run (case PER_call b c of Inl e \<Rightarrow> b | Inr b' \<Rightarrow> b') cs"

subsection \<open>The agent of dqn\_v2.py\<close>

record 's Agent =
  gamma :: real
  update_frequency :: nat
  target_network_update_freq :: nat
  memory :: "'s Transition ExperienceReplay"
  epsilon_start :: real
  epsilon_end :: real
  epsilon_decay_steps :: nat
  replay_start_size :: nat
  training_frames :: nat

text \<open>The constants of \<^verbatim>\<open>Agent.__init__\<close>.\<close>

definition Agent_init :: "'s Agent" where
  "Agent_init =
     \<lparr>gamma = 99 / 100, update_frequency = 4, target_network_update_freq = 1000,
      memory = ER_init 200 32,
      epsilon_start = 1, epsilon_end = 2 / 100, epsilon_decay_steps = 1000000,
      replay_start_size = 250, training_frames = 10000000\<rparr>"

text \<open>
  \<^verbatim>\<open>get_eps(current_step, terminal_eps, terminal_frame_factor)\<close>; the defaults of
  the two keyword arguments are 0.01 and 25. The method is a \<^verbatim>\<open>tf.function\<close> called
  on a tensor: the conditions on \<open>current_step\<close> are staged and every branch is
  traced, so both quotients, which are quotients of Python numbers, are computed
  whatever the step is. A divisor that is zero makes the call raise for every step.
  The arithmetic on the step is taken without float32 rounding.
\<close>

definition get_eps :: "'s Agent \<Rightarrow> real \<Rightarrow> real \<Rightarrow> nat \<Rightarrow> error + real" where
  "get_eps a current_step terminal_eps terminal_frame_factor =
     (let terminal_eps_frame = epsilon_decay_steps a * terminal_frame_factor
      in if epsilon_decay_steps a = replay_start_size a
            \<or> terminal_eps_frame = epsilon_decay_steps a
         then Inl ZeroDivisionError
         else Inr
          (if current_step < real (replay_start_size a) then epsilon_start a
           else if current_step < real (epsilon_decay_steps a) then
             (epsilon_end a - epsilon_start a)
               / (real (epsilon_decay_steps a) - real (replay_start_size a))
               * (current_step - real (replay_start_size a)) + epsilon_start a
           else if current_step < real terminal_eps_frame then
             (terminal_eps - epsilon_end a)
               / (real terminal_eps_frame - real (epsilon_decay_steps a))
               * (current_step - real (epsilon_decay_steps a)) + epsilon_end a
           else terminal_eps))"

text \<open>
  float32 values with their infinities and NaN, for the learner's target. A finite
  value is a real number; rounding to the nearest float is left out, overflow is not:
  a result beyond the largest float32 is an infinity.
\<close>

datatype float32 = Finite real | PInf | NInf | NaN

definition max_float32 :: real where
  "max_float32 = (2 - 1 / 2 ^ 23) * 2 ^ 127"

definition to_float32 :: "real \<Rightarrow> float32" where
  "to_float32 x =
     (if max_float32 < x then PInf else if x < - max_float32 then NInf else Finite x)"

fun fmul :: "float32 \<Rightarrow> float32 \<Rightarrow> float32" where
  "fmul NaN y = NaN"
| "fmul x NaN = NaN"
| "fmul (Finite x) (Finite y) = to_float32 (x * y)"
| "fmul (Finite x) PInf = (if x = 0 then NaN else if 0 < x then PInf else NInf)"
| "fmul (Finite x) NInf = (if x = 0 then NaN else if 0 < x then NInf else PInf)"
| "fmul PInf (Finite y) = (if y = 0 then NaN else if 0 < y then PInf else NInf)"
| "fmul NInf (Finite y) = (if y = 0 then NaN else if 0 < y then NInf else PInf)"
| "fmul PInf PInf = PInf"
| "fmul PInf NInf = NInf"
| "fmul NInf PInf = NInf"
| "fmul NInf NInf = PInf"

fun fadd :: "float32 \<Rightarrow> float32 \<Rightarrow> float32" where
  "fadd NaN y = NaN"
| "fadd x NaN = NaN"
| "fadd (Finite x) (Finite y) = to_float32 (x + y)"
| "fadd (Finite x) PInf = PInf"
| "fadd (Finite x) NInf = NInf"
| "fadd PInf (Finite y) = PInf"
| "fadd NInf (Finite y) = NInf"
| "fadd PInf PInf = PInf"
| "fadd PInf NInf = NaN"
| "fadd NInf PInf = NaN"
| "fadd NInf NInf = NInf"

text \<open>The larger of two values neither of which is NaN.\<close>

fun fmax :: "float32 \<Rightarrow> float32 \<Rightarrow> float32" where
  "fmax NaN y = NaN"
| "fmax x NaN = NaN"
| "fmax PInf y = PInf"
| "fmax x PInf = PInf"
| "fmax NInf y = y"
| "fmax x NInf = x"
| "fmax (Finite x) (Finite y) = Finite (max x y)"

text \<open>
  \<^verbatim>\<open>tf.math.reduce_max\<close> along a row: minus infinity for the empty row. What the
  result is for a row that holds NaN depends on the TensorFlow kernel; it is the
  parameter \<open>nan_max\<close>.
\<close>

definition reduce_max :: "(float32 list \<Rightarrow> float32) \<Rightarrow> float32 list \<Rightarrow> float32" where
  "reduce_max nan_max row = (if NaN \<in> set row then nan_max row else fold fmax row NInf)"

definition cast_float :: "bool \<Rightarrow> real" where
  "cast_float d = (if d then 1 else 0)"

text \<open>
  The target of \<^verbatim>\<open>update_main_q_network\<close>:
  \<^verbatim>\<open>rewards + self.gamma * next_state_max_q * (1.0 - tf.cast(dones, tf.float32))\<close>,
  the product taken from the left. The target network is a parameter, a function from
  a state to its row of action values, which may hold infinities and NaN. Rewards are
  finite. The three batches are broadcast to one length, a batch of a single entry
  being repeated; batches of other different lengths raise.
\<close>

definition target_value :: "real \<Rightarrow> real \<Rightarrow> float32 \<Rightarrow> bool \<Rightarrow> float32" where
  "target_value g r m d =
     fadd (Finite r) (fmul (fmul (Finite g) m) (Finite (1 - cast_float d)))"

definition expected_q ::
  "'s Agent \<Rightarrow> (float32 list \<Rightarrow> float32) \<Rightarrow> ('s \<Rightarrow> float32 list) \<Rightarrow>
   real list \<Rightarrow> bool list \<Rightarrow> 's list \<Rightarrow> error + float32 list" where
  "expected_q a nan_max target_network rewards dones new_states =
     (let next_state_q = map target_network new_states;
          next_state_max_q = map (reduce_max nan_max) next_state_q;
          n = (if length next_state_max_q \<noteq> 1 then length next_state_max_q
               else if length dones \<noteq> 1 then length dones
               else length rewards)
      in case (broadcast rewards n, broadcast next_state_max_q n, broadcast dones n) of
           (Some rs, Some ms, Some ds) \<Rightarrow>
             Inr (map (\<lambda>(r, m, d). target_value (gamma a) r m d) (zip rs (zip ms ds)))
         | _ \<Rightarrow> Inl ValueError)"

text \<open>
  The training loop. \<open>trace\<close> records every learner update and every target sync
  with the step at which it happens and the number of transitions the memory holds at
  that moment. The environment is outside the model: the loop is run on the
  transitions the environment produced, one per iteration of the inner loop. Every
  iteration first computes the exploration rate, with the default keyword arguments,
  which can raise. Choosing the action and updating the network do not change the
  control flow and are left out; sampling can raise and is kept.
\<close>

datatype event = LEARN nat nat | SYNC nat nat

record 's train_state =
  agent :: "'s Agent"
  total_step :: nat
  trace :: "event list"

definition py_mod :: "nat \<Rightarrow> nat \<Rightarrow> error + nat" where
  "py_mod m n = (if n = 0 then Inl ZeroDivisionError else Inr (m mod n))"

definition learn_step :: "'s train_state \<Rightarrow> rng \<Rightarrow> error + ('s train_state \<times> rng)" where
  "learn_step s g =
     (case ER_get_sample_indices (memory (agent s)) g of
        Inl e \<Rightarrow> Inl e
      | Inr (indices, m, g') \<Rightarrow>
          (case get_sample m indices of
             Inl e \<Rightarrow> Inl e
           | Inr (batch, m') \<Rightarrow>
               Inr (s\<lparr>agent := (agent s)\<lparr>memory := m'\<rparr>,
                      trace := trace s @ [LEARN (total_step s) (length (buffer m'))]\<rparr>, g')))"

definition loop_body ::
  "'s train_state \<Rightarrow> 's Transition \<Rightarrow> rng \<Rightarrow> error + ('s train_state \<times> rng)" where
  "loop_body s tr g =
     (case get_eps (agent s) (real (total_step s)) (1 / 100) 25 of
        Inl e \<Rightarrow> Inl e
      | Inr eps \<Rightarrow>
     (let s1 = s\<lparr>agent := (agent s)\<lparr>memory := ER_append (memory (agent s)) tr\<rparr>\<rparr>
      in case py_mod (total_step s1) (update_frequency (agent s1)) of
           Inl e \<Rightarrow> Inl e
         | Inr r1 \<Rightarrow>
             (case (if r1 = 0 \<and> replay_start_size (agent s1) < total_step s1
                    then learn_step s1 g else Inr (s1, g)) of
                Inl e \<Rightarrow> Inl e
              | Inr (s2, g2) \<Rightarrow>
                  (case py_mod (total_step s2) (target_network_update_freq (agent s2)) of
                     Inl e \<Rightarrow> Inl e
                   | Inr r2 \<Rightarrow>
                       (let s3 = (if r2 = 0 \<and> replay_start_size (agent s2) < total_step s2
                                  then s2\<lparr>trace := trace s2 @
                                         [SYNC (total_step s2) (length (buffer (memory (agent s2))))]\<rparr>
                                  else s2)
                        in Inr (s3\<lparr>total_step := total_step s3 + 1\<rparr>, g2))))))"

fun train_loop ::
  "'s train_state \<Rightarrow> 's Transition list \<Rightarrow> rng \<Rightarrow> error + ('s train_state \<times> rng)" where
  "train_loop s [] g = Inr (s, g)"
| "train_loop s (tr # trs) g =
     (case loop_body s tr g of
        Inl e \<Rightarrow> Inl e
      | Inr (s', g') \<Rightarrow>
          if done_t tr \<and> \<not> total_step s' < training_frames (agent s') then Inr (s', g')
          else train_loop s' trs g')"

definition train :: "'s Agent \<Rightarrow> 's Transition list \<Rightarrow> rng \<Rightarrow> error + ('s train_state \<times> rng)" where
  "train a trs g =
     (let s = \<lparr>agent = a, total_step = 0, trace = []\<rparr>
      in if total_step s < training_frames a then train_loop s trs g else Inr (s, g))"

text \<open>
  The states the prioritized buffer is in between calls: one priority per stored
  transition, \<open>current_size\<close> the number of stored transitions, at most \<open>size\<close>
  of them.
\<close>

definition PER_wf :: "'t PrioritizedExperienceReplay \<Rightarrow> bool" where
  "PER_wf b = (length (priorities b) = length (buffer b) \<and> current_size b = length (buffer b)
               \<and> length (buffer b) \<le> size_b b)"


text \<open>
  What one iteration of the inner loop appends to the trace at step \<open>t\<close> when the
  memory holds \<open>n\<close> transitions: the two gates of \<^verbatim>\<open>Agent.train\<close>, in their order.
\<close>

definition events_at :: "'s Agent \<Rightarrow> nat \<Rightarrow> nat \<Rightarrow> event list" where
  "events_at a t n =
     (if t mod update_frequency a = 0 \<and> replay_start_size a < t then [LEARN t n] else [])
     @ (if t mod target_network_update_freq a = 0 \<and> replay_start_size a < t
        then [SYNC t n] else [])"

text \<open>
  Drawing distinct positions from a categorical distribution, as the specification
  describes it; the definitions below follow its words, not NumPy's code. A variate
  \<open>u\<close> of the unit interval selects the position \<open>i\<close> of the weights \<open>w\<close> when
  \<open>u\<close>, scaled by the sum of the weights, lies in the interval between the sum of the
  weights before \<open>i\<close> and that sum plus the weight of \<open>i\<close>: an interval whose share of
  the whole is the weight of \<open>i\<close> over the sum, the probability of \<open>i\<close>.
\<close>

definition selects :: "real list \<Rightarrow> real \<Rightarrow> nat \<Rightarrow> bool" where
  "selects w u i =
     (i < length w \<and> sum_list (take i w) \<le> u * sum_list w
      \<and> u * sum_list w < sum_list (take (Suc i) w))"

text \<open>The weights without the positions already drawn, and the next variates.\<close>

definition without :: "real list \<Rightarrow> nat list \<Rightarrow> real list" where
  "without w found = map (\<lambda>i. if i \<in> set found then 0 else w ! i) [0..<length w]"

definition variates :: "rng \<Rightarrow> nat \<Rightarrow> real list" where
  "variates g k = map (\<lambda>t. frac (draws g (pos g + t))) [0..<k]"

text \<open>
  \<open>draws_distinct n w found g res g'\<close>: starting with the positions \<open>found\<close> and the
  generator \<open>g\<close>, drawing until \<open>n\<close> distinct positions are found gives \<open>res\<close> and
  leaves the generator \<open>g'\<close>. A round takes one variate per missing position; each
  selects a position among those not found in earlier rounds; the positions selected
  are kept in the order of the variates, a repeated one once.
\<close>

inductive draws_distinct ::
  "nat \<Rightarrow> real list \<Rightarrow> nat list \<Rightarrow> rng \<Rightarrow> nat list \<Rightarrow> rng \<Rightarrow> bool"
  for n :: nat and w :: "real list" where
  finish: "n \<le> length found \<Longrightarrow> draws_distinct n w found g found g"
| round: "length found < n \<Longrightarrow>
          list_all2 (selects (without w found)) (variates g (n - length found)) cands \<Longrightarrow>
          draws_distinct n w (found @ unique_first cands)
            (g\<lparr>pos := pos g + (n - length found)\<rparr>) res g' \<Longrightarrow>
          draws_distinct n w found g res g'"

section \<open>The exploration schedule\<close>

text \<open>A schedule with an empty segment raises at every step.\<close>

lemma get_eps_empty_segment:
  "epsilon_decay_steps a = replay_start_size a
     \<or> epsilon_decay_steps a * tff = epsilon_decay_steps a \<Longrightarrow>
   get_eps a step te tff = Inl ZeroDivisionError"
  by (simp add: get_eps_def Let_def)

text \<open>
  C8. \<^verbatim>\<open>get_eps\<close> is a function of the step alone (the agent's constants and the two
  keyword arguments being fixed). When both segments are not empty, it returns for
  every step: before the start of the first segment, the step \<open>replay_start_size\<close>,
  the value \<open>epsilon_start\<close>; on the first segment the linear interpolation from
  \<open>epsilon_start\<close> to \<open>epsilon_end\<close>, on the second the linear interpolation from
  \<open>epsilon_end\<close> to \<open>terminal_eps\<close>; from the end of the last segment on the value
  \<open>terminal_eps\<close>.
\<close>

theorem get_eps_schedule:
  assumes "replay_start_size a < epsilon_decay_steps a" and "1 < tff"
  shows "(step < real (replay_start_size a) \<longrightarrow>
            get_eps a step te tff = Inr (epsilon_start a))
       \<and> (real (replay_start_size a) \<le> step \<and> step < real (epsilon_decay_steps a) \<longrightarrow>
            get_eps a step te tff =
              Inr (epsilon_start a + (epsilon_end a - epsilon_start a)
                * ((step - real (replay_start_size a))
                   / (real (epsilon_decay_steps a) - real (replay_start_size a)))))
       \<and> (real (epsilon_decay_steps a) \<le> step \<and> step < real (epsilon_decay_steps a * tff) \<longrightarrow>
            get_eps a step te tff =
              Inr (epsilon_end a + (te - epsilon_end a)
                * ((step - real (epsilon_decay_steps a))
                   / (real (epsilon_decay_steps a * tff) - real (epsilon_decay_steps a)))))
       \<and> (real (epsilon_decay_steps a * tff) \<le> step \<longrightarrow> get_eps a step te tff = Inr te)"
proof -
  define r where "r = real (replay_start_size a)"
  define d where "d = real (epsilon_decay_steps a)"
  define f where "f = real (epsilon_decay_steps a * tff)"
  have le1: "r < d"
    using assms(1) by (simp add: r_def d_def)
  from assms(1) have dpos: "0 < epsilon_decay_steps a" by simp
  with assms(2) have lt: "epsilon_decay_steps a * 1 < epsilon_decay_steps a * tff"
    by (simp only: mult_less_cancel1)
  then have le2: "d < f"
    by (simp add: d_def f_def del: of_nat_mult)
  have ok: "\<not> (epsilon_decay_steps a = replay_start_size a
               \<or> epsilon_decay_steps a * tff = epsilon_decay_steps a)"
    using assms(1) lt by simp
  have eq: "get_eps a step te tff = Inr
      (if step < r then epsilon_start a
       else if step < d then (epsilon_end a - epsilon_start a) / (d - r) * (step - r) + epsilon_start a
       else if step < f then (te - epsilon_end a) / (f - d) * (step - d) + epsilon_end a
       else te)"
    using ok by (simp only: get_eps_def Let_def r_def d_def f_def if_False)
  have c1: "step < r \<longrightarrow> get_eps a step te tff = Inr (epsilon_start a)"
    by (simp add: eq)
  have c2: "r \<le> step \<and> step < d \<longrightarrow> get_eps a step te tff =
      Inr (epsilon_start a + (epsilon_end a - epsilon_start a) * ((step - r) / (d - r)))"
    by (simp add: eq)
  have c3: "d \<le> step \<and> step < f \<longrightarrow> get_eps a step te tff =
      Inr (epsilon_end a + (te - epsilon_end a) * ((step - d) / (f - d)))"
    using le1 by (simp add: eq)
  have c4: "f \<le> step \<longrightarrow> get_eps a step te tff = Inr te"
    using le1 le2 by (simp add: eq)
  show ?thesis
    using c1 c2 c3 c4 unfolding r_def d_def f_def by blast
qed

text \<open>
  The schedule of the agent as constructed, with the default keyword arguments: the
  warm-up value, the two knots, the midpoints of both segments and the clamped tail.
\<close>

theorem get_eps_schedule_witness:
  "get_eps (Agent_init :: unit Agent) 0 (1 / 100) 25 = Inr 1
   \<and> get_eps (Agent_init :: unit Agent) 250 (1 / 100) 25 = Inr 1
   \<and> get_eps (Agent_init :: unit Agent) 500125 (1 / 100) 25 = Inr (51 / 100)
   \<and> get_eps (Agent_init :: unit Agent) 1000000 (1 / 100) 25 = Inr (2 / 100)
   \<and> get_eps (Agent_init :: unit Agent) 13000000 (1 / 100) 25 = Inr (15 / 1000)
   \<and> get_eps (Agent_init :: unit Agent) 25000000 (1 / 100) 25 = Inr (1 / 100)
   \<and> get_eps (Agent_init :: unit Agent) 99000000 (1 / 100) 25 = Inr (1 / 100)"
  using get_eps_schedule [of "Agent_init :: unit Agent" 25 0 "1 / 100"]
        get_eps_schedule [of "Agent_init :: unit Agent" 25 250 "1 / 100"]
        get_eps_schedule [of "Agent_init :: unit Agent" 25 500125 "1 / 100"]
        get_eps_schedule [of "Agent_init :: unit Agent" 25 1000000 "1 / 100"]
        get_eps_schedule [of "Agent_init :: unit Agent" 25 13000000 "1 / 100"]
        get_eps_schedule [of "Agent_init :: unit Agent" 25 25000000 "1 / 100"]
        get_eps_schedule [of "Agent_init :: unit Agent" 25 99000000 "1 / 100"]
  by (simp add: Agent_init_def)

section \<open>Capacity of the buffers\<close>

lemma length_deque_append: "length xs \<le> n \<Longrightarrow> length (deque_append n xs x) \<le> n"
  by (auto simp: deque_append_def Let_def)

lemma ER_append_inv:
  "length (buffer b) \<le> size_b b \<Longrightarrow>
   length (buffer (ER_append b t)) \<le> size_b (ER_append b t)
   \<and> current_size (ER_append b t) = length (buffer (ER_append b t))
   \<and> size_b (ER_append b t) = size_b b \<and> batch_size (ER_append b t) = batch_size b"
  by (simp add: ER_append_def Let_def length_deque_append)

lemma ER_run_inv:
  "length (buffer b) \<le> size_b b \<Longrightarrow> current_size b = length (buffer b) \<Longrightarrow>
   length (buffer (foldl ER_append b ts)) \<le> size_b b
   \<and> current_size (foldl ER_append b ts) = length (buffer (foldl ER_append b ts))
   \<and> size_b (foldl ER_append b ts) = size_b b"
proof (induction ts arbitrary: b)
  case Nil
  then show ?case by simp
next
  case (Cons t ts)
  from ER_append_inv [OF Cons.prems(1), of t] Cons.IH [of "ER_append b t"]
  show ?case by simp
qed

lemma length_fold_update:
  "length (fold (\<lambda>(i, v) ps. ps[wrap_index (length ps) i := v]) zs ps) = length ps"
  by (induction zs arbitrary: ps) (auto simp: case_prod_beta)


lemma PER_append_wf:
  assumes "PER_wf b" and "PER_append b t = Inr b'"
  shows "PER_wf b' \<and> size_b b' = size_b b \<and> epsilon b' = epsilon b"
  using assms
  by (auto simp: PER_wf_def PER_append_def split: if_splits sum.splits)

lemma PER_update_wf:
  assumes "PER_wf b" and "PER_update_priorities b idx errs = Inr b'"
  shows "PER_wf b' \<and> size_b b' = size_b b \<and> epsilon b' = epsilon b"
  using assms
  by (auto simp: PER_wf_def PER_update_priorities_def length_fold_update split: if_splits option.splits)

lemma PER_call_wf:
  "PER_wf b \<Longrightarrow> PER_call b c = Inr b' \<Longrightarrow> PER_wf b' \<and> size_b b' = size_b b \<and> epsilon b' = epsilon b"
  by (cases c) (auto dest: PER_append_wf PER_update_wf)

lemma PER_run_wf:
  "PER_wf b \<Longrightarrow> PER_wf (PER_run b cs) \<and> size_b (PER_run b cs) = size_b b \<and> epsilon (PER_run b cs) = epsilon b"
proof (induction cs arbitrary: b)
  case Nil
  then show ?case by simp
next
  case (Cons c cs)
  show ?case
  proof (cases "PER_call b c")
    case (Inl e)
    with Cons show ?thesis by simp
  next
    case (Inr b')
    with PER_call_wf [OF Cons.prems Inr] Cons.IH [of b'] show ?thesis by simp
  qed
qed

lemma PER_init_wf: "PER_wf (PER_init n bs al ep)"
  by (simp add: PER_wf_def PER_init_def)

text \<open>
  C3. Whatever the sequence of \<^verbatim>\<open>append\<close> calls on a uniform buffer of capacity
  \<open>n\<close>, and whatever the sequence of \<^verbatim>\<open>append\<close> and \<^verbatim>\<open>update_priorities\<close> calls
  on a prioritized buffer of capacity \<open>n\<close>, the store holds at most \<open>n\<close> transitions
  and \<open>current_size\<close> is their number; in the prioritized buffer the priorities are
  as many as the stored transitions. The sequences are arbitrary, so the statement holds
  after every single mutation.
\<close>

theorem capacity_invariant:
  "length (buffer (foldl ER_append (ER_init n bs) ts)) \<le> n
   \<and> current_size (foldl ER_append (ER_init n bs) ts)
       = length (buffer (foldl ER_append (ER_init n bs) ts))
   \<and> length (buffer (PER_run (PER_init n bs al ep) cs)) \<le> n
   \<and> length (priorities (PER_run (PER_init n bs al ep) cs))
       = length (buffer (PER_run (PER_init n bs al ep) cs))
   \<and> current_size (PER_run (PER_init n bs al ep) cs)
       = length (buffer (PER_run (PER_init n bs al ep) cs))"
proof -
  have "length (buffer (ER_init n bs :: 'a ExperienceReplay)) \<le> size_b (ER_init n bs :: 'a ExperienceReplay)"
    and "current_size (ER_init n bs :: 'a ExperienceReplay) = length (buffer (ER_init n bs :: 'a ExperienceReplay))"
    by (simp_all add: ER_init_def)
  from ER_run_inv [OF this, of ts]
  have er: "length (buffer (foldl ER_append (ER_init n bs :: 'a ExperienceReplay) ts)) \<le> n
   \<and> current_size (foldl ER_append (ER_init n bs :: 'a ExperienceReplay) ts)
       = length (buffer (foldl ER_append (ER_init n bs) ts))"
    by (simp add: ER_init_def)
  from PER_run_wf [OF PER_init_wf, of n bs al ep cs]
  have "length (buffer (PER_run (PER_init n bs al ep :: 'b PrioritizedExperienceReplay) cs)) \<le> n
   \<and> length (priorities (PER_run (PER_init n bs al ep :: 'b PrioritizedExperienceReplay) cs))
       = length (buffer (PER_run (PER_init n bs al ep) cs))
   \<and> current_size (PER_run (PER_init n bs al ep :: 'b PrioritizedExperienceReplay) cs)
       = length (buffer (PER_run (PER_init n bs al ep) cs))"
    by (simp add: PER_wf_def PER_init_def)
  with er show ?thesis by blast
qed

section \<open>Insertion into the prioritized buffer\<close>

lemma np_max_eq: "np_max xs = Inr (Max (set xs))" if "xs \<noteq> []"
proof (cases xs)
  case Nil
  with that show ?thesis by simp
next
  case (Cons x ys)
  then show ?thesis using Max.set_eq_fold [of x ys] by simp
qed

lemma argmin_from_spec:
  assumes "length pre = i" and "best_i < i" and "pre ! best_i = best"
    and "\<forall>j < i. best \<le> pre ! j" and "\<forall>j < best_i. best < pre ! j"
  shows "argmin_from ys i best_i best < length (pre @ ys)
       \<and> (\<forall>j < length (pre @ ys). (pre @ ys) ! argmin_from ys i best_i best \<le> (pre @ ys) ! j)
       \<and> (\<forall>j < argmin_from ys i best_i best.
             (pre @ ys) ! argmin_from ys i best_i best < (pre @ ys) ! j)"
  using assms
proof (induction ys arbitrary: pre i best_i best)
  case Nil
  then show ?case by auto
next
  case (Cons y ys)
  show ?case
  proof (cases "y < best")
    case True
    have "argmin_from ys (Suc i) i y < length ((pre @ [y]) @ ys)
       \<and> (\<forall>j < length ((pre @ [y]) @ ys). ((pre @ [y]) @ ys) ! argmin_from ys (Suc i) i y \<le> ((pre @ [y]) @ ys) ! j)
       \<and> (\<forall>j < argmin_from ys (Suc i) i y.
             ((pre @ [y]) @ ys) ! argmin_from ys (Suc i) i y < ((pre @ [y]) @ ys) ! j)"
    proof (rule Cons.IH)
      show "length (pre @ [y]) = Suc i" using Cons.prems(1) by simp
      show "i < Suc i" by simp
      show "(pre @ [y]) ! i = y" using Cons.prems(1) by (simp add: nth_append)
      show "\<forall>j<Suc i. y \<le> (pre @ [y]) ! j"
        using Cons.prems(1,4) True by (auto simp: nth_append less_Suc_eq)
      show "\<forall>j<i. y < (pre @ [y]) ! j"
        using Cons.prems(1,4) True by (auto simp: nth_append)
    qed
    with True show ?thesis by simp
  next
    case False
    have "argmin_from ys (Suc i) best_i best < length ((pre @ [y]) @ ys)
       \<and> (\<forall>j < length ((pre @ [y]) @ ys). ((pre @ [y]) @ ys) ! argmin_from ys (Suc i) best_i best \<le> ((pre @ [y]) @ ys) ! j)
       \<and> (\<forall>j < argmin_from ys (Suc i) best_i best.
             ((pre @ [y]) @ ys) ! argmin_from ys (Suc i) best_i best < ((pre @ [y]) @ ys) ! j)"
    proof (rule Cons.IH)
      show "length (pre @ [y]) = Suc i" using Cons.prems(1) by simp
      show "best_i < Suc i" using Cons.prems(2) by simp
      show "(pre @ [y]) ! best_i = best" using Cons.prems(1,2,3) by (simp add: nth_append)
      show "\<forall>j<Suc i. best \<le> (pre @ [y]) ! j"
        using Cons.prems(1,4) False by (auto simp: nth_append less_Suc_eq)
      show "\<forall>j<best_i. best < (pre @ [y]) ! j"
        using Cons.prems(1,2,5) by (auto simp: nth_append)
    qed
    with False show ?thesis by simp
  qed
qed

lemma np_argmin_spec:
  assumes "xs \<noteq> []"
  shows "\<exists>idx. np_argmin xs = Inr idx \<and> idx < length xs \<and> xs ! idx = Min (set xs)
           \<and> (\<forall>j < idx. xs ! idx < xs ! j)"
proof -
  from assms obtain x ys where xs: "xs = x # ys" by (cases xs) auto
  let ?r = "argmin_from ys 1 0 x"
  have spec: "?r < length ([x] @ ys)
       \<and> (\<forall>j < length ([x] @ ys). ([x] @ ys) ! ?r \<le> ([x] @ ys) ! j)
       \<and> (\<forall>j < ?r. ([x] @ ys) ! ?r < ([x] @ ys) ! j)"
    by (rule argmin_from_spec) auto
  then have lt: "?r < length xs" and le: "\<forall>j < length xs. xs ! ?r \<le> xs ! j"
    and first: "\<forall>j < ?r. xs ! ?r < xs ! j"
    by (simp_all add: xs)
  have "xs ! ?r = Min (set xs)"
  proof (rule sym, rule Min_eqI)
    show "finite (set xs)" by simp
    show "xs ! ?r \<in> set xs" using lt by simp
    fix y assume "y \<in> set xs"
    then obtain j where "j < length xs" "xs ! j = y" by (auto simp: in_set_conv_nth)
    with le show "xs ! ?r \<le> y" by auto
  qed
  with lt first show ?thesis by (simp add: xs)
qed

text \<open>
  C2. In a state of the prioritized buffer (with a positive capacity) \<^verbatim>\<open>append\<close>
  succeeds. Under capacity the transition is appended with priority \<open>epsilon\<close> when
  the buffer is empty and with the maximum of the present priorities otherwise. At
  capacity the transition overwrites the slot \<open>idx\<close> of minimum priority (the first
  such slot), whatever its age, and its priority is the maximum of the priorities held
  before the overwrite.
\<close>

theorem PER_append_policy:
  assumes "PER_wf b" and "0 < size_b b"
  shows "\<exists>b'. PER_append b t = Inr b'
      \<and> (current_size b < size_b b \<longrightarrow>
           buffer b' = buffer b @ [t]
           \<and> priorities b' = priorities b @
               [if buffer b = [] then epsilon b else Max (set (priorities b))])
      \<and> (\<not> current_size b < size_b b \<longrightarrow>
           (\<exists>idx < length (buffer b).
              priorities b ! idx = Min (set (priorities b))
              \<and> (\<forall>j < idx. priorities b ! idx < priorities b ! j)
              \<and> buffer b' = (buffer b)[idx := t]
              \<and> priorities b' = (priorities b)[idx := Max (set (priorities b))]
              \<and> priorities b' ! idx = Max (set (priorities b))))
      \<and> current_size b' = length (buffer b') \<and> size_b b' = size_b b
      \<and> batch_size b' = batch_size b \<and> prob_alpha b' = prob_alpha b \<and> epsilon b' = epsilon b"
proof (cases "current_size b < size_b b")
  case True
  show ?thesis
  proof (cases "priorities b = []")
    case e: True
    with assms(1) have "buffer b = []" by (simp add: PER_wf_def)
    with True e show ?thesis by (simp add: PER_append_def)
  next
    case ne: False
    with assms(1) have "buffer b \<noteq> []" by (auto simp: PER_wf_def)
    with True ne show ?thesis by (simp add: PER_append_def np_max_eq)
  qed
next
  case False
  with assms have ne: "priorities b \<noteq> []" by (auto simp: PER_wf_def)
  from np_argmin_spec [OF ne] obtain idx where idx: "np_argmin (priorities b) = Inr idx"
    "idx < length (priorities b)" "priorities b ! idx = Min (set (priorities b))"
    "\<forall>j < idx. priorities b ! idx < priorities b ! j" by blast
  from assms(1) idx(2) have lt: "idx < length (buffer b)" by (simp add: PER_wf_def)
  have "PER_append b t = Inr (b\<lparr>buffer := (buffer b)[idx := t],
          current_size := length ((buffer b)[idx := t]),
          priorities := (priorities b)[idx := Max (set (priorities b))]\<rparr>)"
    using False idx(1) lt ne by (simp add: PER_append_def np_max_eq)
  with False idx lt show ?thesis by auto
qed

text \<open>
  At capacity 3 with priorities 0.1, 0.9, 0.5 the slot 0 is overwritten and gets the
  priority 0.9; the first transition of an empty buffer gets \<open>epsilon\<close>.
\<close>

theorem PER_append_policy_witness:
  "PER_wf \<lparr>size_b = 3, batch_size = 2, current_size = 3, buffer = [10, 11, 12 :: nat],
           priorities = [1 / 10, 9 / 10, 5 / 10], prob_alpha = 6 / 10, epsilon = 1 / 1000\<rparr>
   \<and> PER_append \<lparr>size_b = 3, batch_size = 2, current_size = 3, buffer = [10, 11, 12 :: nat],
           priorities = [1 / 10, 9 / 10, 5 / 10], prob_alpha = 6 / 10, epsilon = 1 / 1000\<rparr> 13
     = Inr \<lparr>size_b = 3, batch_size = 2, current_size = 3, buffer = [13, 11, 12],
           priorities = [9 / 10, 9 / 10, 5 / 10], prob_alpha = 6 / 10, epsilon = 1 / 1000\<rparr>
   \<and> PER_wf (PER_init 3 2 (6 / 10) (1 / 1000) :: nat PrioritizedExperienceReplay)
   \<and> PER_append (PER_init 3 2 (6 / 10) (1 / 1000)) (10 :: nat)
     = Inr \<lparr>size_b = 3, batch_size = 2, current_size = 1, buffer = [10],
           priorities = [1 / 1000], prob_alpha = 6 / 10, epsilon = 1 / 1000\<rparr>"
  using PER_append_policy [of "\<lparr>size_b = 3, batch_size = 2, current_size = 3,
           buffer = [10, 11, 12 :: nat],
           priorities = [1 / 10, 9 / 10, 5 / 10], prob_alpha = 6 / 10, epsilon = 1 / 1000\<rparr>" 13]
        PER_append_policy [of "PER_init 3 2 (6 / 10) (1 / 1000) :: nat PrioritizedExperienceReplay" 10]
  by (simp add: PER_wf_def PER_append_def PER_init_def)

section \<open>Priority updates\<close>

lemma fold_update_other:
  "j < length ps \<Longrightarrow> j \<notin> wrap_index (length ps) ` fst ` set zs \<Longrightarrow>
   fold (\<lambda>(i, v) ps. ps[wrap_index (length ps) i := v]) zs ps ! j = ps ! j"
proof (induction zs arbitrary: ps)
  case Nil
  then show ?case by simp
next
  case (Cons z zs)
  obtain i v where z: "z = (i, v)" by (cases z)
  from Cons.prems have ne: "j \<noteq> wrap_index (length ps) i"
    and rest: "j \<notin> wrap_index (length ps) ` fst ` set zs"
    by (auto simp: z)
  have "fold (\<lambda>(i, v) ps. ps[wrap_index (length ps) i := v]) zs (ps[wrap_index (length ps) i := v]) ! j
        = ps[wrap_index (length ps) i := v] ! j"
    using Cons.prems(1) rest by (intro Cons.IH) simp_all
  with ne show ?case by (simp add: z)
qed

lemma fold_update_last:
  "k < length zs \<Longrightarrow> wrap_index (length ps) (fst (zs ! k)) < length ps \<Longrightarrow>
   wrap_index (length ps) (fst (zs ! k)) \<notin> wrap_index (length ps) ` fst ` set (drop (Suc k) zs) \<Longrightarrow>
   fold (\<lambda>(i, v) ps. ps[wrap_index (length ps) i := v]) zs ps ! wrap_index (length ps) (fst (zs ! k))
     = snd (zs ! k)"
proof (induction zs arbitrary: ps k)
  case Nil
  then show ?case by simp
next
  case (Cons z zs)
  obtain i v where z: "z = (i, v)" by (cases z)
  let ?ps = "ps[wrap_index (length ps) i := v]"
  show ?case
  proof (cases k)
    case 0
    with Cons.prems have lt: "wrap_index (length ps) i < length ps"
      and notin: "wrap_index (length ps) i \<notin> wrap_index (length ps) ` fst ` set zs"
      by (simp_all add: z)
    have "fold (\<lambda>(i, v) ps. ps[wrap_index (length ps) i := v]) zs ?ps ! wrap_index (length ps) i
          = ?ps ! wrap_index (length ps) i"
      using lt notin by (intro fold_update_other) simp_all
    with lt 0 show ?thesis by (simp add: z)
  next
    case (Suc k')
    with Cons.prems have "k' < length zs"
      and "wrap_index (length ?ps) (fst (zs ! k')) < length ?ps"
      and "wrap_index (length ?ps) (fst (zs ! k'))
             \<notin> wrap_index (length ?ps) ` fst ` set (drop (Suc k') zs)"
      by simp_all
    from Cons.IH [OF this] Suc show ?thesis by (simp add: z)
  qed
qed

lemma wrap_index_less: "- int n \<le> i \<Longrightarrow> i < int n \<Longrightarrow> wrap_index n i < n"
  by (auto simp: wrap_index_def)

text \<open>
  C6. When every index lies within the array and there is one error per index,
  \<^verbatim>\<open>update_priorities\<close> succeeds; afterwards the priority at every given index is
  its error plus \<open>epsilon\<close> (for an index given several times, the error of its last
  occurrence), the priorities at all other positions are what they were, and nothing
  else of the buffer has changed.
\<close>

theorem update_priorities_roundtrip:
  assumes "length abs_errors = length indices"
    and "\<forall>i \<in> set indices. - int (length (priorities b)) \<le> i \<and> i < int (length (priorities b))"
  shows "\<exists>b'. PER_update_priorities b indices abs_errors = Inr b'
      \<and> (\<forall>k < length indices.
            wrap_index (length (priorities b)) (indices ! k)
              \<notin> wrap_index (length (priorities b)) ` set (drop (Suc k) indices) \<longrightarrow>
            priorities b' ! wrap_index (length (priorities b)) (indices ! k)
              = abs_errors ! k + epsilon b)
      \<and> (\<forall>j < length (priorities b).
            j \<notin> wrap_index (length (priorities b)) ` set indices \<longrightarrow>
            priorities b' ! j = priorities b ! j)
      \<and> length (priorities b') = length (priorities b)
      \<and> b' = b\<lparr>priorities := priorities b'\<rparr>"
proof -
  let ?n = "length (priorities b)"
  let ?vals = "map (\<lambda>e. e + epsilon b) abs_errors"
  let ?zs = "zip indices ?vals"
  let ?ps = "fold (\<lambda>(i, v) ps. ps[wrap_index (length ps) i := v]) ?zs (priorities b)"
  have bc: "broadcast ?vals (length indices) = Some ?vals"
    using assms(1) by (simp add: broadcast_def)
  have inr: "\<not> (\<exists>i \<in> set indices. i < - int ?n \<or> int ?n \<le> i)"
    using assms(2) by auto
  have res: "PER_update_priorities b indices abs_errors = Inr (b\<lparr>priorities := ?ps\<rparr>)"
    unfolding PER_update_priorities_def bc using inr by simp
  have fsts: "map fst ?zs = indices" and len: "length ?zs = length indices"
    using assms(1) by simp_all
  have a: "priorities (b\<lparr>priorities := ?ps\<rparr>) ! wrap_index ?n (indices ! k) = abs_errors ! k + epsilon b"
    if k: "k < length indices"
      and last: "wrap_index ?n (indices ! k) \<notin> wrap_index ?n ` set (drop (Suc k) indices)" for k
  proof -
    have zk: "?zs ! k = (indices ! k, abs_errors ! k + epsilon b)"
      using k assms(1) by simp
    have "indices ! k \<in> set indices" using k by simp
    with assms(2) have lt: "wrap_index ?n (fst (?zs ! k)) < ?n"
      by (simp add: zk wrap_index_less)
    have "fst ` set (drop (Suc k) ?zs) = set (drop (Suc k) indices)"
      using fsts by (metis drop_map set_map)
    with last have "wrap_index ?n (fst (?zs ! k)) \<notin> wrap_index ?n ` fst ` set (drop (Suc k) ?zs)"
      by (simp add: zk)
    from fold_update_last [OF _ lt this] k len
    show ?thesis by (simp add: zk)
  qed
  have c: "priorities (b\<lparr>priorities := ?ps\<rparr>) ! j = priorities b ! j"
    if j: "j < ?n" and notin: "j \<notin> wrap_index ?n ` set indices" for j
  proof -
    have "fst ` set ?zs = set indices" using fsts by (metis set_map)
    with notin have "j \<notin> wrap_index ?n ` fst ` set ?zs" by simp
    from fold_update_other [OF j this] show ?thesis by simp
  qed
  have "length (priorities (b\<lparr>priorities := ?ps\<rparr>)) = ?n"
    by (simp add: length_fold_update)
  with res a c show ?thesis by auto
qed

theorem update_priorities_roundtrip_witness:
  "length [3 / 10, 7 / 10 :: real] = length [2, 0 :: int]
   \<and> PER_update_priorities
        \<lparr>size_b = 3, batch_size = 2, current_size = 3, buffer = [10, 11, 12 :: nat],
         priorities = [1 / 10, 9 / 10, 5 / 10], prob_alpha = 6 / 10, epsilon = 1 / 1000\<rparr>
        [2, 0] [3 / 10, 7 / 10]
     = Inr \<lparr>size_b = 3, batch_size = 2, current_size = 3, buffer = [10, 11, 12],
            priorities = [701 / 1000, 9 / 10, 301 / 1000], prob_alpha = 6 / 10,
            epsilon = 1 / 1000\<rparr>"
  using update_priorities_roundtrip [of "[3 / 10, 7 / 10]" "[2, 0]"
        "\<lparr>size_b = 3, batch_size = 2, current_size = 3, buffer = [10, 11, 12 :: nat],
         priorities = [1 / 10, 9 / 10, 5 / 10], prob_alpha = 6 / 10, epsilon = 1 / 1000\<rparr>"]
  by (simp add: PER_update_priorities_def broadcast_def wrap_index_def)

section \<open>The floor of the priorities\<close>






lemma those_map_Some: "those (map (\<lambda>x. Some (f x)) xs) = Some (map f xs)"
  by (induction xs) simp_all

lemma np_power_pos: "0 < x \<Longrightarrow> np_power x a = Some (x powr a)"
  by (simp add: np_power_def)

lemma power_array_pos:
  assumes "\<forall>p \<in> set ps. 0 < p"
  shows "power_array ps a = Some (map (\<lambda>p. p powr a) ps)"
proof -
  have "map (\<lambda>x. np_power x a) ps = map (\<lambda>x. Some (x powr a)) ps"
    using assms by (simp add: np_power_pos)
  then show ?thesis unfolding power_array_def by (simp only: those_map_Some)
qed

lemma sum_list_pos: "xs \<noteq> [] \<Longrightarrow> \<forall>x \<in> set xs. (0::real) < x \<Longrightarrow> 0 < sum_list xs"
  by (induction xs) (auto intro: add_pos_nonneg sum_list_nonneg less_imp_le)

lemma sampling_probs_pos:
  assumes "\<forall>p \<in> set (priorities b). 0 < p"
  shows "sampling_probs b =
           Some (map (\<lambda>p. p powr prob_alpha b
                       / (\<Sum>q \<leftarrow> priorities b. q powr prob_alpha b)) (priorities b))"
proof (cases "priorities b = []")
  case True
  then show ?thesis by (simp add: sampling_probs_def power_array_def divide_by_sum_def)
next
  case False
  have "0 < sum_list (map (\<lambda>p. p powr prob_alpha b) (priorities b))"
    using False assms by (intro sum_list_pos) auto
  then show ?thesis
    using assms by (simp add: sampling_probs_def power_array_pos divide_by_sum_def o_def)
qed



section \<open>The bootstrapped target\<close>

lemma fold_fmax_Finite: "fold fmax (map Finite qs) (Finite q) = Finite (fold max qs q)"
  by (induction qs arbitrary: q) (simp_all add: max.commute)

lemma reduce_max_Finite:
  assumes "qs \<noteq> []"
  shows "reduce_max nan_max (map Finite qs) = Finite (Max (set qs))"
proof -
  from assms obtain q rest where qs: "qs = q # rest" by (cases qs) auto
  have "NaN \<notin> set (map Finite qs)" by auto
  then have "reduce_max nan_max (map Finite qs) = fold fmax (map Finite qs) NInf"
    by (simp only: reduce_max_def if_False)
  also have "\<dots> = Finite (fold max rest q)"
    by (simp add: qs fold_fmax_Finite)
  also have "fold max rest q = Max (set qs)"
    using Max.set_eq_fold [of q rest] by (simp add: qs)
  finally show ?thesis .
qed

lemma broadcast_same: "length xs = n \<Longrightarrow> broadcast xs n = Some xs"
  by (simp add: broadcast_def)

lemma expected_q_same_length:
  assumes "length rewards = length new_states" and "length dones = length new_states"
  shows "expected_q a nan_max tn rewards dones new_states =
           Inr (map (\<lambda>(r, m, d). target_value (gamma a) r m d)
                  (zip rewards (zip (map (reduce_max nan_max) (map tn new_states)) dones)))"
proof -
  let ?ms = "map (reduce_max nan_max) (map tn new_states)"
  let ?n = "if length ?ms \<noteq> 1 then length ?ms
            else if length dones \<noteq> 1 then length dones else length rewards"
  have n: "?n = length new_states" using assms by simp
  have "broadcast rewards ?n = Some rewards" "broadcast ?ms ?n = Some ?ms"
       "broadcast dones ?n = Some dones"
    unfolding n using assms by (simp_all add: broadcast_same)
  then show ?thesis
    unfolding expected_q_def Let_def by (simp only: prod.case option.case)
qed

lemma to_float32_Finite: "\<bar>x\<bar> \<le> max_float32 \<Longrightarrow> to_float32 x = Finite x"
  by (auto simp: to_float32_def)

lemma max_float32_pos: "0 < max_float32"
  by (simp add: max_float32_def)

text \<open>The target where everything stays finite, and the target of a terminal transition.\<close>

lemma target_value_finite:
  assumes "\<bar>g * q\<bar> \<le> max_float32" and "\<bar>r + g * q * (1 - cast_float d)\<bar> \<le> max_float32"
  shows "target_value g r (Finite q) d = Finite (r + g * q * (1 - cast_float d))"
proof -
  have "\<bar>g * q * (1 - cast_float d)\<bar> \<le> \<bar>g * q\<bar>"
    by (simp add: cast_float_def)
  with assms(1) have "\<bar>g * q * (1 - cast_float d)\<bar> \<le> max_float32" by simp
  with assms show ?thesis
    by (simp add: target_value_def to_float32_Finite)
qed

lemma target_value_terminal:
  assumes "\<bar>g * q\<bar> \<le> max_float32" and "\<bar>r\<bar> \<le> max_float32"
  shows "target_value g r (Finite q) True = Finite r"
  using target_value_finite [of g q r True] assms by (simp add: cast_float_def)

lemma target_value_terminal_NaN:
  assumes "\<not> (\<exists>q. m = Finite q \<and> \<bar>g * q\<bar> \<le> max_float32)"
  shows "target_value g r m True = NaN"
proof (cases m)
  case (Finite q)
  with assms have "max_float32 < g * q \<or> g * q < - max_float32" by auto
  then have "to_float32 (g * q) = PInf \<or> to_float32 (g * q) = NInf"
    using max_float32_pos by (auto simp: to_float32_def)
  then show ?thesis
    by (auto simp: target_value_def cast_float_def Finite)
qed (simp_all add: target_value_def cast_float_def)

text \<open>
  C4, as the code has it. For a batch (rewards, terminal flags and next states of one
  length) the learner's target at a position, where the action values of the next
  state are finite and nothing overflows, is the reward plus \<open>gamma\<close> times the
  maximum of the target network's action values at the next state times one minus the
  terminal flag. At a terminal transition the target is exactly the reward when that
  maximum is finite and its product with \<open>gamma\<close> is within the range of float32; in
  every other case (a maximum that is NaN or infinite, a product that overflows) the
  target of a terminal transition is NaN.
\<close>

theorem td_target:
  assumes "length rewards = length new_states" and "length dones = length new_states"
  shows "\<exists>ys. expected_q a nan_max target_network rewards dones new_states = Inr ys
      \<and> length ys = length new_states
      \<and> (\<forall>i < length new_states. \<forall>qs.
            target_network (new_states ! i) = map Finite qs \<and> qs \<noteq> []
            \<and> \<bar>gamma a * Max (set qs)\<bar> \<le> max_float32
            \<and> \<bar>rewards ! i + gamma a * Max (set qs) * (1 - (if dones ! i then 1 else 0))\<bar>
                 \<le> max_float32 \<longrightarrow>
            ys ! i = Finite (rewards ! i
                       + gamma a * Max (set qs) * (1 - (if dones ! i then 1 else 0))))
      \<and> (\<forall>i < length new_states. \<forall>q.
            dones ! i \<and> \<bar>rewards ! i\<bar> \<le> max_float32
            \<and> reduce_max nan_max (target_network (new_states ! i)) = Finite q
            \<and> \<bar>gamma a * q\<bar> \<le> max_float32 \<longrightarrow>
            ys ! i = Finite (rewards ! i))
      \<and> (\<forall>i < length new_states.
            dones ! i
            \<and> \<not> (\<exists>q. reduce_max nan_max (target_network (new_states ! i)) = Finite q
                      \<and> \<bar>gamma a * q\<bar> \<le> max_float32) \<longrightarrow>
            ys ! i = NaN)"
proof -
  let ?ys = "map (\<lambda>(r, m, d). target_value (gamma a) r m d)
               (zip rewards (zip (map (reduce_max nan_max) (map target_network new_states)) dones))"
  have res: "expected_q a nan_max target_network rewards dones new_states = Inr ?ys"
    by (rule expected_q_same_length [OF assms])
  have len: "length ?ys = length new_states" using assms by simp
  have nth: "?ys ! i = target_value (gamma a) (rewards ! i)
               (reduce_max nan_max (target_network (new_states ! i))) (dones ! i)"
    if "i < length new_states" for i
    using that assms by simp
  have a: "?ys ! i = Finite (rewards ! i
                       + gamma a * Max (set qs) * (1 - (if dones ! i then 1 else 0)))"
    if "i < length new_states" and "target_network (new_states ! i) = map Finite qs"
      and "qs \<noteq> []" and "\<bar>gamma a * Max (set qs)\<bar> \<le> max_float32"
      and "\<bar>rewards ! i + gamma a * Max (set qs) * (1 - (if dones ! i then 1 else 0))\<bar>
             \<le> max_float32" for i qs
  proof -
    have "reduce_max nan_max (target_network (new_states ! i)) = Finite (Max (set qs))"
      using that(2,3) by (simp add: reduce_max_Finite)
    with nth [OF that(1)]
      target_value_finite [of "gamma a" "Max (set qs)" "rewards ! i" "dones ! i"] that(4,5)
    show ?thesis by (simp add: cast_float_def)
  qed
  have b: "?ys ! i = Finite (rewards ! i)"
    if "i < length new_states" and "dones ! i" and "\<bar>rewards ! i\<bar> \<le> max_float32"
      and "reduce_max nan_max (target_network (new_states ! i)) = Finite q"
      and "\<bar>gamma a * q\<bar> \<le> max_float32" for i q
    using nth [OF that(1)] that(2,4) target_value_terminal [OF that(5,3)] by simp
  have c: "?ys ! i = NaN"
    if "i < length new_states" and "dones ! i"
      and "\<not> (\<exists>q. reduce_max nan_max (target_network (new_states ! i)) = Finite q
                      \<and> \<bar>gamma a * q\<bar> \<le> max_float32)" for i
    using nth [OF that(1)] that(2) target_value_terminal_NaN [OF that(3)] by simp
  from res len a b c show ?thesis by blast
qed

text \<open>
  A terminal and a running transition with finite action values: the first target is
  the reward 0.5, the second \<open>- 1 + 0.99 * 10\<close>.
\<close>

theorem td_target_witness:
  "length [1 / 2, - 1 :: real] = length [1, 5 :: real]
   \<and> length [True, False] = length [1, 5 :: real]
   \<and> expected_q (Agent_init :: real Agent) (\<lambda>row. NaN) (\<lambda>s. [Finite s, Finite (2 * s)])
        [1 / 2, - 1] [True, False] [1, 5]
     = Inr [Finite (1 / 2), Finite (89 / 10)]"
proof -
  have m: "(10 :: real) \<le> max_float32" by (simp add: max_float32_def)
  have r: "reduce_max (\<lambda>row. NaN) [Finite 1, Finite 2] = Finite 2"
    "reduce_max (\<lambda>row. NaN) [Finite 5, Finite 10] = Finite 10"
    by (simp_all add: reduce_max_def)
  have t1: "target_value (99 / 100) (1 / 2) (Finite 2) True = Finite (1 / 2)"
    using m by (intro target_value_terminal) simp_all
  have t2: "target_value (99 / 100) (- 1) (Finite 10) False = Finite (89 / 10)"
    using m target_value_finite [of "99 / 100" 10 "- 1" False] by (simp add: cast_float_def)
  have "expected_q (Agent_init :: real Agent) (\<lambda>row. NaN) (\<lambda>s. [Finite s, Finite (2 * s)])
        [1 / 2, - 1] [True, False] [1, 5]
     = Inr [Finite (1 / 2), Finite (89 / 10)]"
    by (simp add: expected_q_same_length r t1 t2 Agent_init_def)
  with td_target [of "[1 / 2, - 1]" "[1, 5 :: real]" "[True, False]"
        "Agent_init :: real Agent" "\<lambda>row. NaN" "\<lambda>s. [Finite s, Finite (2 * s)]"]
  show ?thesis by simp
qed

text \<open>
  C4, as the specification states it, fails. A terminal transition with reward 0.25:
  where the target network returns an infinite action value for the next state the
  target is NaN, not the reward, and with the next state 8, where the same network
  returns 0, it is the reward. The target of a terminal transition depends on the
  next state.
\<close>

theorem terminal_target_not_reward:
  "expected_q (Agent_init :: nat Agent) (\<lambda>row. NaN)
       (\<lambda>s. if s = 7 then [PInf] else [Finite 0]) [1 / 4] [True] [7]
     = Inr [NaN]
   \<and> expected_q (Agent_init :: nat Agent) (\<lambda>row. NaN)
       (\<lambda>s. if s = 7 then [PInf] else [Finite 0]) [1 / 4] [True] [8]
     = Inr [Finite (1 / 4)]
   \<and> NaN \<noteq> Finite (1 / 4)"
proof -
  have m: "(1 / 4 :: real) \<le> max_float32" by (simp add: max_float32_def)
  have "target_value (99 / 100) (1 / 4) PInf True = NaN"
    by (simp add: target_value_def cast_float_def)
  moreover have "target_value (99 / 100) (1 / 4) (Finite 0) True = Finite (1 / 4)"
    using m by (simp add: target_value_def cast_float_def to_float32_def)
  ultimately show ?thesis
    by (simp add: expected_q_same_length reduce_max_def Agent_init_def)
qed

section \<open>Sampling from the uniform buffer\<close>

text \<open>
  Every index \<^verbatim>\<open>get_sample_indices\<close> of the uniform buffer returns lies below the
  capacity \<open>size\<close>, and there are \<open>batch_size\<close> of them.
\<close>

lemma random_sample_range: "0 \<le> fst (random_sample g) \<and> fst (random_sample g) < 1"
  by (simp add: random_sample_def frac_lt_1)

lemma randint_range:
  assumes "randint 0 high g = Inr (i, g')"
  shows "0 \<le> i \<and> i < high \<and> pos g' = Suc (pos g) \<and> draws g' = draws g"
proof -
  from assms have high: "0 < high"
    by (auto simp: randint_def split: if_splits)
  let ?u = "fst (random_sample g)"
  from assms have i: "i = \<lfloor>?u * of_int high\<rfloor>" and g': "g' = snd (random_sample g)"
    by (auto simp: randint_def split: if_splits prod.splits)
  from random_sample_range [of g] have u: "0 \<le> ?u" "?u < 1" by simp_all
  from u(1) high have "0 \<le> ?u * of_int high" by simp
  then have lo: "0 \<le> i" by (simp add: i)
  from u(2) high have "?u * of_int high < of_int high" by simp
  then have hi: "i < high" by (simp add: i floor_less_iff)
  from lo hi g' show ?thesis by (simp add: random_sample_def)
qed

lemma ER_sample_loop_range:
  "ER_sample_loop b indices g = Inr (res, g') \<Longrightarrow>
   \<forall>i \<in> set indices. 0 \<le> i \<and> i < int (size_b b) \<Longrightarrow>
   (\<forall>i \<in> set res. 0 \<le> i \<and> i < int (size_b b))
   \<and> length res = max (batch_size b) (length indices)"
proof (induction b indices g rule: ER_sample_loop.induct)
  case (1 b indices g)
  show ?case
  proof (cases "length indices < batch_size b")
    case True
    with "1.prems"(1) obtain index g1 where r: "randint 0 (int (size_b b)) g = Inr (index, g1)"
      and rec: "ER_sample_loop b (indices @ [index]) g1 = Inr (res, g')"
      by (subst (asm) ER_sample_loop.simps) (auto split: sum.splits)
    from randint_range [OF r] "1.prems"(2)
    have "\<forall>i \<in> set (indices @ [index]). 0 \<le> i \<and> i < int (size_b b)" by auto
    from "1.IH" [OF True r refl rec this] True show ?thesis by auto
  next
    case False
    with "1.prems" show ?thesis
      by (subst (asm) ER_sample_loop.simps) auto
  qed
qed

lemma ER_indices_range:
  assumes "ER_get_sample_indices b g = Inr (indices, b', g')"
  shows "length indices = batch_size b \<and> (\<forall>i \<in> set indices. 0 \<le> i \<and> i < int (size_b b))"
proof -
  from assms obtain g1 where "ER_sample_loop b [] g = Inr (indices, g1)"
    by (auto simp: ER_get_sample_indices_def split: sum.splits)
  from ER_sample_loop_range [OF this] show ?thesis by simp
qed

text \<open>
  C1. The indices of the uniform buffer should lie below \<open>current_size\<close>, so that
  each refers to a stored transition. The method draws below the capacity instead: a
  buffer of capacity 3 and batch size 2 that holds one transition returns the index 2
  twice when the generator yields 0.9, and \<^verbatim>\<open>get_sample\<close> raises on these indices.
\<close>

theorem uniform_indices_beyond_stored:
  "current_size (ER_append (ER_init 3 2)
       \<lparr>state = 4 :: nat, action = 0, reward = 0, done_t = False, new_state = 5\<rparr>) = 1
   \<and> ER_get_sample_indices
       (ER_append (ER_init 3 2)
          \<lparr>state = 4 :: nat, action = 0, reward = 0, done_t = False, new_state = 5\<rparr>)
       \<lparr>draws = \<lambda>k. 9 / 10, pos = 0\<rparr>
     = Inr ([2, 2],
            ER_append (ER_init 3 2)
              \<lparr>state = 4 :: nat, action = 0, reward = 0, done_t = False, new_state = 5\<rparr>,
            \<lparr>draws = \<lambda>k. 9 / 10, pos = 2\<rparr>)
   \<and> get_sample
       (ER_append (ER_init 3 2)
          \<lparr>state = 4 :: nat, action = 0, reward = 0, done_t = False, new_state = 5\<rparr>)
       [2, 2]
     = Inl IndexError"
proof -
  define B where "B = ER_append (ER_init 3 2)
      \<lparr>state = 4 :: nat, action = 0, reward = 0, done_t = False, new_state = 5\<rparr>"
  have sz: "size_b B = 3" and bs: "batch_size B = 2" and cs: "current_size B = 1"
    and buf: "length (buffer B) = 1"
    by (simp_all add: B_def ER_append_def ER_init_def deque_append_def)
  have f: "frac (9 / 10 :: real) = 9 / 10" by (simp add: frac_eq)
  have r: "randint 0 3 \<lparr>draws = \<lambda>k. 9 / 10, pos = p\<rparr>
             = Inr (2, \<lparr>draws = \<lambda>k. 9 / 10, pos = Suc p\<rparr>)" for p
    by (simp add: randint_def random_sample_def f)
  have l2: "ER_sample_loop B [2, 2] g = Inr ([2, 2], g)" for g
    by (subst ER_sample_loop.simps) (simp add: bs)
  have l1: "ER_sample_loop B [2] \<lparr>draws = \<lambda>k. 9 / 10, pos = p\<rparr>
              = Inr ([2, 2], \<lparr>draws = \<lambda>k. 9 / 10, pos = Suc p\<rparr>)" for p
    by (subst ER_sample_loop.simps) (simp add: bs sz r l2)
  have l0: "ER_sample_loop B [] \<lparr>draws = \<lambda>k. 9 / 10, pos = 0\<rparr>
              = Inr ([2, 2], \<lparr>draws = \<lambda>k. 9 / 10, pos = 2\<rparr>)"
    by (subst ER_sample_loop.simps) (simp add: bs sz r l1)
  have g: "get_sample B [2, 2] = Inl IndexError"
    by (simp add: get_sample_def py_getitem_def buf)
  from l0 g cs show ?thesis
    unfolding B_def [symmetric] by (simp add: ER_get_sample_indices_def)
qed

section \<open>Sampling leaves the buffer as it is\<close>

text \<open>
  C10. After \<^verbatim>\<open>get_sample_indices\<close> and after \<^verbatim>\<open>get_sample\<close>, on the uniform and on
  the prioritized buffer, the buffer object is the one before the call: the stored
  transitions and their order, \<open>current_size\<close>, capacity and batch size and, in the
  prioritized buffer, the priorities are unchanged. (A call that raises has written
  nothing either: neither method contains an assignment to the object.)
\<close>

theorem sampling_read_only:
  "(ER_get_sample_indices b g = Inr (indices, b', g') \<longrightarrow> b' = b)
   \<and> (get_sample b idx = Inr (batch, b'') \<longrightarrow> b'' = b)
   \<and> (PER_get_sample_indices pb g = Inr (pindices, pb', pg') \<longrightarrow> pb' = pb)
   \<and> (get_sample pb idx = Inr (pbatch, pb'') \<longrightarrow> pb'' = pb)"
  by (auto simp: ER_get_sample_indices_def PER_get_sample_indices_def get_sample_def
      split: sum.splits option.splits)

theorem sampling_read_only_witness:
  "ER_get_sample_indices
       \<lparr>size_b = 1, batch_size = 2, current_size = 1,
        buffer = [\<lparr>state = 4 :: nat, action = 0, reward = 0, done_t = False, new_state = 5\<rparr>]\<rparr>
       \<lparr>draws = \<lambda>k. 9 / 10, pos = 0\<rparr>
     = Inr ([0, 0],
        \<lparr>size_b = 1, batch_size = 2, current_size = 1,
         buffer = [\<lparr>state = 4 :: nat, action = 0, reward = 0, done_t = False, new_state = 5\<rparr>]\<rparr>,
        \<lparr>draws = \<lambda>k. 9 / 10, pos = 2\<rparr>)
   \<and> get_sample
       \<lparr>size_b = 1, batch_size = 2, current_size = 1,
        buffer = [\<lparr>state = 4 :: nat, action = 0, reward = 0, done_t = False, new_state = 5\<rparr>]\<rparr>
       [0, 0]
     = Inr (([4, 4], [0, 0], [0, 0], [False, False], [5, 5]),
        \<lparr>size_b = 1, batch_size = 2, current_size = 1,
         buffer = [\<lparr>state = 4 :: nat, action = 0, reward = 0, done_t = False, new_state = 5\<rparr>]\<rparr>)
   \<and> PER_get_sample_indices
       \<lparr>size_b = 2, batch_size = 1, current_size = 2,
        buffer = [\<lparr>state = 4 :: nat, action = 0, reward = 0, done_t = False, new_state = 5\<rparr>,
                  \<lparr>state = 5, action = 2, reward = 3, done_t = True, new_state = 6\<rparr>],
        priorities = [1 / 2, 1 / 2], prob_alpha = 1, epsilon = 1 / 1000\<rparr>
       \<lparr>draws = \<lambda>k. 9 / 10, pos = 0\<rparr>
     = Inr ([1],
        \<lparr>size_b = 2, batch_size = 1, current_size = 2,
         buffer = [\<lparr>state = 4 :: nat, action = 0, reward = 0, done_t = False, new_state = 5\<rparr>,
                   \<lparr>state = 5, action = 2, reward = 3, done_t = True, new_state = 6\<rparr>],
         priorities = [1 / 2, 1 / 2], prob_alpha = 1, epsilon = 1 / 1000\<rparr>,
        \<lparr>draws = \<lambda>k. 9 / 10, pos = 1\<rparr>)
   \<and> get_sample
       \<lparr>size_b = 2, batch_size = 1, current_size = 2,
        buffer = [\<lparr>state = 4 :: nat, action = 0, reward = 0, done_t = False, new_state = 5\<rparr>,
                  \<lparr>state = 5, action = 2, reward = 3, done_t = True, new_state = 6\<rparr>],
        priorities = [1 / 2, 1 / 2], prob_alpha = 1, epsilon = 1 / 1000\<rparr>
       [1]
     = Inr (([5], [2], [3], [True], [6]),
        \<lparr>size_b = 2, batch_size = 1, current_size = 2,
         buffer = [\<lparr>state = 4 :: nat, action = 0, reward = 0, done_t = False, new_state = 5\<rparr>,
                   \<lparr>state = 5, action = 2, reward = 3, done_t = True, new_state = 6\<rparr>],
         priorities = [1 / 2, 1 / 2], prob_alpha = 1, epsilon = 1 / 1000\<rparr>)"
proof -
  define B where "B = \<lparr>size_b = 1, batch_size = 2, current_size = 1,
        buffer = [\<lparr>state = 4 :: nat, action = 0, reward = 0, done_t = False, new_state = 5\<rparr>]\<rparr>"
  define P where "P = \<lparr>size_b = 2, batch_size = 1, current_size = 2,
        buffer = [\<lparr>state = 4 :: nat, action = 0, reward = 0, done_t = False, new_state = 5\<rparr>,
                  \<lparr>state = 5, action = 2, reward = 3, done_t = True, new_state = 6\<rparr>],
        priorities = [1 / 2, 1 / 2], prob_alpha = 1, epsilon = 1 / 1000\<rparr>"
  have sz: "size_b B = 1" and bs: "batch_size B = 2" by (simp_all add: B_def)
  have f: "frac (9 / 10 :: real) = 9 / 10" by (simp add: frac_eq)
  have r: "randint 0 1 \<lparr>draws = \<lambda>k. 9 / 10, pos = p\<rparr>
             = Inr (0, \<lparr>draws = \<lambda>k. 9 / 10, pos = Suc p\<rparr>)" for p
    by (simp add: randint_def random_sample_def f)
  have l2: "ER_sample_loop B [0, 0] g = Inr ([0, 0], g)" for g
    by (subst ER_sample_loop.simps) (simp add: bs)
  have l1: "ER_sample_loop B [0] \<lparr>draws = \<lambda>k. 9 / 10, pos = p\<rparr>
              = Inr ([0, 0], \<lparr>draws = \<lambda>k. 9 / 10, pos = Suc p\<rparr>)" for p
    by (subst ER_sample_loop.simps) (simp add: bs sz r l2)
  have l0: "ER_sample_loop B [] \<lparr>draws = \<lambda>k. 9 / 10, pos = 0\<rparr>
              = Inr ([0, 0], \<lparr>draws = \<lambda>k. 9 / 10, pos = 2\<rparr>)"
    by (subst ER_sample_loop.simps) (simp add: bs sz r l1)
  have e1: "ER_get_sample_indices B \<lparr>draws = \<lambda>k. 9 / 10, pos = 0\<rparr>
              = Inr ([0, 0], B, \<lparr>draws = \<lambda>k. 9 / 10, pos = 2\<rparr>)"
    by (simp add: ER_get_sample_indices_def l0)
  have e2: "get_sample B [0, 0] = Inr (([4, 4], [0, 0], [0, 0], [False, False], [5, 5]), B)"
    by (simp add: get_sample_def py_getitem_def B_def)
  have sp: "sampling_probs P = Some [1 / 2, 1 / 2]"
    by (simp add: sampling_probs_def power_array_def np_power_def divide_by_sum_def P_def)
  have rd: "rand (Suc 0) \<lparr>draws = \<lambda>k. 9 / 10, pos = 0\<rparr>
              = ([9 / 10], \<lparr>draws = \<lambda>k. 9 / 10, pos = 1\<rparr>)"
    by (simp add: random_sample_def f)
  have dn: "draw_new [1 / 2, 1 / 2] [9 / 10] = [Suc 0]"
    by (simp add: draw_new_def cumsum_def searchsorted_right_def unique_first_def)
  have c1: "choice_loop (Suc 0) p [i] g = ([i], g)" for p i g
    by (subst choice_loop.simps) simp
  have c0: "choice_loop (Suc 0) [1 / 2, 1 / 2] [] \<lparr>draws = \<lambda>k. 9 / 10, pos = 0\<rparr>
              = ([Suc 0], \<lparr>draws = \<lambda>k. 9 / 10, pos = Suc 0\<rparr>)"
    by (subst choice_loop.simps) (simp add: random_sample_def f dn c1)
  have ch: "choice 2 1 [1 / 2, 1 / 2] \<lparr>draws = \<lambda>k. 9 / 10, pos = 0\<rparr>
              = Inr ([1], \<lparr>draws = \<lambda>k. 9 / 10, pos = 1\<rparr>)"
    by (simp add: choice_def atol_def c0)
  have len: "length (buffer P) = 2" and bsP: "batch_size P = 1"
    by (simp_all add: P_def)
  have "PER_get_sample_indices P \<lparr>draws = \<lambda>k. 9 / 10, pos = 0\<rparr>
              = Inr (map int [1], P, \<lparr>draws = \<lambda>k. 9 / 10, pos = 1\<rparr>)"
    by (simp only: PER_get_sample_indices_def sp len bsP ch option.case sum.case prod.case)
  then have e3: "PER_get_sample_indices P \<lparr>draws = \<lambda>k. 9 / 10, pos = 0\<rparr>
              = Inr ([1], P, \<lparr>draws = \<lambda>k. 9 / 10, pos = 1\<rparr>)"
    by simp
  have e4: "get_sample P [1] = Inr (([5], [2], [3], [True], [6]), P)"
    by (simp add: get_sample_def py_getitem_def P_def)
  from e1 e2 e3 e4
    sampling_read_only [of B "\<lparr>draws = \<lambda>k. 9 / 10, pos = 0\<rparr>" "[0, 0]" B
      "\<lparr>draws = \<lambda>k. 9 / 10, pos = 2\<rparr>" "[0, 0]"
      "([4, 4], [0, 0], [0, 0], [False, False], [5, 5])" B P "[1]" P
      "\<lparr>draws = \<lambda>k. 9 / 10, pos = 1\<rparr>" "([5], [2], [3], [True], [6])" P]
  show ?thesis unfolding B_def P_def by blast
qed

section \<open>The cadence of the training loop\<close>

lemma length_deque_append_eq:
  "length xs \<le> n \<Longrightarrow> length (deque_append n xs x) = min (Suc (length xs)) n"
  by (auto simp: deque_append_def Let_def)

lemma ER_run_length:
  "length (buffer m) \<le> size_b m \<Longrightarrow>
   length (buffer (foldl ER_append m xs)) = min (length (buffer m) + length xs) (size_b m)"
proof (induction xs arbitrary: m)
  case Nil
  then show ?case by simp
next
  case (Cons x xs)
  have len: "length (buffer (ER_append m x)) = min (Suc (length (buffer m))) (size_b m)"
    using Cons.prems by (simp add: ER_append_def Let_def length_deque_append_eq)
  have sz: "size_b (ER_append m x) = size_b m" by (simp add: ER_append_def Let_def)
  from len sz have "length (buffer (ER_append m x)) \<le> size_b (ER_append m x)" by simp
  from Cons.IH [OF this] len sz show ?case by (simp add: min_def)
qed

lemma learn_step_Inr:
  assumes "learn_step s g = Inr (s', g')"
  shows "s' = s\<lparr>trace := trace s @ [LEARN (total_step s) (length (buffer (memory (agent s))))]\<rparr>"
proof -
  from assms obtain indices m g1 batch m' where
    i: "ER_get_sample_indices (memory (agent s)) g = Inr (indices, m, g1)"
    and gs: "get_sample m indices = Inr (batch, m')"
    and s': "s' = s\<lparr>agent := (agent s)\<lparr>memory := m'\<rparr>,
                    trace := trace s @ [LEARN (total_step s) (length (buffer m'))]\<rparr>"
    by (auto simp: learn_step_def split: sum.splits prod.splits)
  from i have "m = memory (agent s)"
    by (auto simp: ER_get_sample_indices_def split: sum.splits)
  moreover from gs have "m' = m"
    by (auto simp: get_sample_def split: sum.splits)
  ultimately show ?thesis by (simp add: s')
qed

lemma loop_body_Inr:
  assumes "loop_body s tr g = Inr (s', g')"
  shows "total_step s' = Suc (total_step s)
       \<and> agent s' = (agent s)\<lparr>memory := ER_append (memory (agent s)) tr\<rparr>
       \<and> trace s' = trace s @ events_at (agent s) (total_step s)
                        (length (buffer (ER_append (memory (agent s)) tr)))
       \<and> 0 < update_frequency (agent s) \<and> 0 < target_network_update_freq (agent s)"
proof -
  define s1 where "s1 = s\<lparr>agent := (agent s)\<lparr>memory := ER_append (memory (agent s)) tr\<rparr>\<rparr>"
  from assms obtain r1 s2 g2 r2 where
    m1: "py_mod (total_step s1) (update_frequency (agent s1)) = Inr r1"
    and l: "(if r1 = 0 \<and> replay_start_size (agent s1) < total_step s1
             then learn_step s1 g else Inr (s1, g)) = Inr (s2, g2)"
    and m2: "py_mod (total_step s2) (target_network_update_freq (agent s2)) = Inr r2"
    and s': "s' = (if r2 = 0 \<and> replay_start_size (agent s2) < total_step s2
                   then s2\<lparr>trace := trace s2 @
                          [SYNC (total_step s2) (length (buffer (memory (agent s2))))]\<rparr>
                   else s2)\<lparr>total_step := total_step
                     (if r2 = 0 \<and> replay_start_size (agent s2) < total_step s2
                      then s2\<lparr>trace := trace s2 @
                          [SYNC (total_step s2) (length (buffer (memory (agent s2))))]\<rparr>
                      else s2) + 1\<rparr>"
    unfolding loop_body_def s1_def [symmetric] Let_def
    by (auto split: sum.splits prod.splits)
  from m1 have uf: "0 < update_frequency (agent s1)"
    and r1: "r1 = total_step s1 mod update_frequency (agent s1)"
    by (auto simp: py_mod_def split: if_splits)
  from m2 have tf: "0 < target_network_update_freq (agent s2)"
    and r2: "r2 = total_step s2 mod target_network_update_freq (agent s2)"
    by (auto simp: py_mod_def split: if_splits)
  have s2: "s2 = (if r1 = 0 \<and> replay_start_size (agent s1) < total_step s1
                  then s1\<lparr>trace := trace s1 @
                         [LEARN (total_step s1) (length (buffer (memory (agent s1))))]\<rparr>
                  else s1)"
    using l by (auto split: if_splits dest: learn_step_Inr)
  have ag2: "agent s2 = agent s1" and ts2: "total_step s2 = total_step s1"
    and tr2: "trace s2 = trace s1 @
          (if r1 = 0 \<and> replay_start_size (agent s1) < total_step s1
           then [LEARN (total_step s1) (length (buffer (memory (agent s1))))] else [])"
    by (simp_all add: s2)
  from tf ag2 have tf': "0 < target_network_update_freq (agent s1)" by simp
  have "total_step s' = Suc (total_step s)"
    by (simp add: s' ts2 s1_def)
  moreover have "agent s' = (agent s)\<lparr>memory := ER_append (memory (agent s)) tr\<rparr>"
    by (simp add: s' ag2 s1_def)
  moreover have "trace s' = trace s @ events_at (agent s) (total_step s)
                        (length (buffer (ER_append (memory (agent s)) tr)))"
    by (simp add: s' tr2 ag2 ts2 r1 r2) (simp add: s1_def events_at_def)
  moreover have "0 < update_frequency (agent s)" "0 < target_network_update_freq (agent s)"
    using uf tf' by (simp_all add: s1_def)
  ultimately show ?thesis by simp
qed

lemma events_at_memory: "events_at (a\<lparr>memory := m\<rparr>) = events_at a"
  by (simp add: events_at_def fun_eq_iff)

lemma train_loop_Inr:
  "train_loop s trs g = Inr (s', g') \<Longrightarrow>
   \<exists>j \<le> length trs.
      total_step s' = total_step s + j
    \<and> agent s' = (agent s)\<lparr>memory := foldl ER_append (memory (agent s)) (take j trs)\<rparr>
    \<and> trace s' = trace s @ concat (map (\<lambda>i. events_at (agent s) (total_step s + i)
                      (length (buffer (foldl ER_append (memory (agent s)) (take (Suc i) trs)))))
                    [0..<j])
    \<and> ((\<forall>tr \<in> set trs. \<not> done_t tr) \<longrightarrow> j = length trs)"
proof (induction trs arbitrary: s g)
  case Nil
  then show ?case by simp
next
  case (Cons tr trs)
  from Cons.prems obtain s1 g1 where body: "loop_body s tr g = Inr (s1, g1)"
    and rest: "(if done_t tr \<and> \<not> total_step s1 < training_frames (agent s1) then Inr (s1, g1)
                else train_loop s1 trs g1) = Inr (s', g')"
    by (auto split: sum.splits prod.splits)
  from loop_body_Inr [OF body] have ts1: "total_step s1 = Suc (total_step s)"
    and ag1: "agent s1 = (agent s)\<lparr>memory := ER_append (memory (agent s)) tr\<rparr>"
    and tr1: "trace s1 = trace s @ events_at (agent s) (total_step s)
                        (length (buffer (ER_append (memory (agent s)) tr)))"
    by simp_all
  show ?case
  proof (cases "done_t tr \<and> \<not> total_step s1 < training_frames (agent s1)")
    case True
    with rest have "s' = s1" by simp
    with ts1 ag1 tr1 True show ?thesis
      by (intro exI [of _ 1]) simp
  next
    case False
    with rest have "train_loop s1 trs g1 = Inr (s', g')" by simp
    from Cons.IH [OF this] obtain j where j: "j \<le> length trs"
      and ts: "total_step s' = total_step s1 + j"
      and ag: "agent s' = (agent s1)\<lparr>memory := foldl ER_append (memory (agent s1)) (take j trs)\<rparr>"
      and tr: "trace s' = trace s1 @ concat (map (\<lambda>i. events_at (agent s1) (total_step s1 + i)
                      (length (buffer (foldl ER_append (memory (agent s1)) (take (Suc i) trs)))))
                    [0..<j])"
      and all: "(\<forall>tr \<in> set trs. \<not> done_t tr) \<longrightarrow> j = length trs"
      by blast
    have shift: "map (\<lambda>i. events_at (agent s) (total_step s + i)
                      (length (buffer (foldl ER_append (memory (agent s)) (take (Suc i) (tr # trs))))))
                    [0..<Suc j]
               = events_at (agent s) (total_step s)
                        (length (buffer (ER_append (memory (agent s)) tr)))
                 # map (\<lambda>i. events_at (agent s1) (total_step s1 + i)
                      (length (buffer (foldl ER_append (memory (agent s1)) (take (Suc i) trs)))))
                    [0..<j]"
      by (simp add: upt_conv_Cons map_Suc_upt [symmetric] events_at_memory ts1 ag1 del: upt_Suc)
    show ?thesis
    proof (intro exI [of _ "Suc j"] conjI)
      show "Suc j \<le> length (tr # trs)" using j by simp
      show "total_step s' = total_step s + Suc j" using ts ts1 by simp
      show "agent s' = (agent s)\<lparr>memory := foldl ER_append (memory (agent s)) (take (Suc j) (tr # trs))\<rparr>"
        using ag ag1 by simp
      show "trace s' = trace s @ concat (map (\<lambda>i. events_at (agent s) (total_step s + i)
                      (length (buffer (foldl ER_append (memory (agent s)) (take (Suc i) (tr # trs))))))
                    [0..<Suc j])"
        unfolding shift using tr tr1 by simp
      show "(\<forall>tr \<in> set (tr # trs). \<not> done_t tr) \<longrightarrow> Suc j = length (tr # trs)"
        using all by simp
    qed
  qed
qed

lemma LEARN_events_at:
  "LEARN t n \<in> set (events_at a i m) \<longleftrightarrow>
     t = i \<and> n = m \<and> i mod update_frequency a = 0 \<and> replay_start_size a < i"
  by (auto simp: events_at_def)

lemma SYNC_events_at:
  "SYNC t n \<in> set (events_at a i m) \<longleftrightarrow>
     t = i \<and> n = m \<and> i mod target_network_update_freq a = 0 \<and> replay_start_size a < i"
  by (auto simp: events_at_def)

lemma train_Inr:
  assumes "buffer (memory a) = []" and "train a trs g = Inr (s, g')"
  shows "total_step s \<le> length trs
       \<and> ((\<forall>tr \<in> set trs. \<not> done_t tr) \<and> 0 < training_frames a \<longrightarrow> total_step s = length trs)
       \<and> trace s = concat (map (\<lambda>i. events_at a i (min (Suc i) (size_b (memory a))))
                             [0..<total_step s])
       \<and> agent s = a\<lparr>memory := foldl ER_append (memory a) (take (total_step s) trs)\<rparr>"
proof (cases "0 < training_frames a")
  case False
  with assms(2) have "s = \<lparr>agent = a, total_step = 0, trace = []\<rparr>"
    by (simp add: train_def)
  with False show ?thesis by simp
next
  case True
  let ?s0 = "\<lparr>agent = a, total_step = 0, trace = []\<rparr>"
  from True assms(2) have "train_loop ?s0 trs g = Inr (s, g')"
    by (simp add: train_def)
  from train_loop_Inr [OF this] obtain j where j: "j \<le> length trs"
    and ts: "total_step s = j"
    and ag: "agent s = a\<lparr>memory := foldl ER_append (memory a) (take j trs)\<rparr>"
    and tr: "trace s = concat (map (\<lambda>i. events_at a i
                (length (buffer (foldl ER_append (memory a) (take (Suc i) trs))))) [0..<j])"
    and all: "(\<forall>tr \<in> set trs. \<not> done_t tr) \<longrightarrow> j = length trs"
    by auto
  have "map (\<lambda>i. events_at a i
                (length (buffer (foldl ER_append (memory a) (take (Suc i) trs))))) [0..<j]
      = map (\<lambda>i. events_at a i (min (Suc i) (size_b (memory a)))) [0..<j]"
  proof (rule map_cong [OF refl])
    fix i assume "i \<in> set [0..<j]"
    with j have "Suc i \<le> length trs" by simp
    then have "length (take (Suc i) trs) = Suc i" by simp
    with ER_run_length [of "memory a" "take (Suc i) trs"] assms(1)
    show "events_at a i (length (buffer (foldl ER_append (memory a) (take (Suc i) trs))))
          = events_at a i (min (Suc i) (size_b (memory a)))"
      by simp
  qed
  with tr have "trace s = concat (map (\<lambda>i. events_at a i (min (Suc i) (size_b (memory a))))
                             [0..<j])"
    by simp
  with j ts ag all show ?thesis by simp
qed

text \<open>
  With the memory sampled only when it is full, and with positive frequencies, no
  iteration of the loop raises.
\<close>

lemma ER_sample_loop_total:
  "0 < size_b b \<Longrightarrow> int (size_b b) \<le> 2147483648 \<Longrightarrow>
   \<exists>res g'. ER_sample_loop b indices g = Inr (res, g')"
proof (induction b indices g rule: ER_sample_loop.induct)
  case (1 b indices g)
  show ?case
  proof (cases "length indices < batch_size b")
    case True
    from "1.prems" have "randint 0 (int (size_b b)) g
        = Inr (\<lfloor>fst (random_sample g) * of_int (int (size_b b))\<rfloor>, snd (random_sample g))"
      by (simp add: randint_def case_prod_beta)
    then obtain index g1 where r: "randint 0 (int (size_b b)) g = Inr (index, g1)"
      by blast
    from "1.IH" [OF True r refl "1.prems"] obtain res g' where
      "ER_sample_loop b (indices @ [index]) g1 = Inr (res, g')" by blast
    with True r show ?thesis
      by (subst ER_sample_loop.simps) simp
  next
    case False
    then show ?thesis by (subst ER_sample_loop.simps) simp
  qed
qed

lemma gather_total:
  "\<forall>i \<in> set indices. 0 \<le> i \<and> i < int (length xs) \<Longrightarrow> \<exists>items. gather xs indices = Inr items"
  by (induction indices) (auto simp: py_getitem_def)

lemma learn_step_total:
  assumes "0 < size_b (memory (agent s))" and "int (size_b (memory (agent s))) \<le> 2147483648"
    and "length (buffer (memory (agent s))) = size_b (memory (agent s))"
  shows "\<exists>s' g'. learn_step s g = Inr (s', g')"
proof -
  let ?m = "memory (agent s)"
  from ER_sample_loop_total [OF assms(1,2), of "[]" g] obtain indices g1
    where "ER_sample_loop ?m [] g = Inr (indices, g1)" by blast
  then have i: "ER_get_sample_indices ?m g = Inr (indices, ?m, g1)"
    by (simp add: ER_get_sample_indices_def)
  from ER_indices_range [OF i] assms(3)
  have "\<forall>i \<in> set indices. 0 \<le> i \<and> i < int (length (buffer ?m))" by simp
  from gather_total [OF this] obtain items where "gather (buffer ?m) indices = Inr items"
    by blast
  with i show ?thesis by (simp add: learn_step_def get_sample_def)
qed

lemma loop_body_total:
  assumes "0 < update_frequency (agent s)" and "0 < target_network_update_freq (agent s)"
    and "0 < size_b (memory (agent s))" and "int (size_b (memory (agent s))) \<le> 2147483648"
    and "size_b (memory (agent s)) \<le> replay_start_size (agent s) + 2"
    and "length (buffer (memory (agent s))) = min (total_step s) (size_b (memory (agent s)))"
    and "epsilon_decay_steps (agent s) \<noteq> replay_start_size (agent s)"
    and "epsilon_decay_steps (agent s) \<noteq> 0"
  shows "\<exists>s' g'. loop_body s tr g = Inr (s', g')"
proof -
  from assms(7,8) obtain eps
    where eps: "get_eps (agent s) (real (total_step s)) (1 / 100) 25 = Inr eps"
    by (simp add: get_eps_def Let_def)
  define s1 where "s1 = s\<lparr>agent := (agent s)\<lparr>memory := ER_append (memory (agent s)) tr\<rparr>\<rparr>"
  have sz: "size_b (memory (agent s1)) = size_b (memory (agent s))"
    by (simp add: s1_def ER_append_def Let_def)
  have len: "length (buffer (memory (agent s1)))
               = min (Suc (total_step s)) (size_b (memory (agent s)))"
    using assms(6) by (simp add: s1_def ER_append_def Let_def length_deque_append_eq min_def)
  have m1: "py_mod (total_step s1) (update_frequency (agent s1))
              = Inr (total_step s mod update_frequency (agent s))"
    using assms(1) by (simp add: py_mod_def s1_def)
  have "\<exists>s2 g2. (if total_step s mod update_frequency (agent s) = 0
                      \<and> replay_start_size (agent s1) < total_step s1
                   then learn_step s1 g else Inr (s1, g)) = Inr (s2, g2)"
  proof (cases "total_step s mod update_frequency (agent s) = 0
                  \<and> replay_start_size (agent s1) < total_step s1")
    case True
    then have "replay_start_size (agent s) < total_step s" by (simp add: s1_def)
    with assms(5) len have full: "length (buffer (memory (agent s1))) = size_b (memory (agent s1))"
      by (simp add: sz)
    from learn_step_total [OF _ _ full, of g] assms(3,4) sz True show ?thesis by simp
  next
    case False
    then show ?thesis by auto
  qed
  then obtain s2 g2 where l: "(if total_step s mod update_frequency (agent s) = 0
                      \<and> replay_start_size (agent s1) < total_step s1
                   then learn_step s1 g else Inr (s1, g)) = Inr (s2, g2)" by blast
  then have ag2: "agent s2 = agent s1"
    by (auto split: if_splits dest: learn_step_Inr)
  have m2: "py_mod (total_step s2) (target_network_update_freq (agent s2))
              = Inr (total_step s2 mod target_network_update_freq (agent s2))"
    using assms(2) by (simp add: py_mod_def ag2 s1_def)
  show ?thesis
    unfolding loop_body_def eps sum.case s1_def [symmetric] Let_def
    by (simp add: m1 l m2)
qed

lemma train_loop_total:
  "0 < update_frequency (agent s) \<Longrightarrow> 0 < target_network_update_freq (agent s) \<Longrightarrow>
   0 < size_b (memory (agent s)) \<Longrightarrow> int (size_b (memory (agent s))) \<le> 2147483648 \<Longrightarrow>
   size_b (memory (agent s)) \<le> replay_start_size (agent s) + 2 \<Longrightarrow>
   length (buffer (memory (agent s))) = min (total_step s) (size_b (memory (agent s))) \<Longrightarrow>
   epsilon_decay_steps (agent s) \<noteq> replay_start_size (agent s) \<Longrightarrow>
   epsilon_decay_steps (agent s) \<noteq> 0 \<Longrightarrow>
   \<exists>s' g'. train_loop s trs g = Inr (s', g')"
proof (induction trs arbitrary: s g)
  case Nil
  then show ?case by simp
next
  case (Cons tr trs)
  from loop_body_total [OF Cons.prems, of tr g] obtain s1 g1
    where body: "loop_body s tr g = Inr (s1, g1)" by blast
  from loop_body_Inr [OF body] have ts1: "total_step s1 = Suc (total_step s)"
    and ag1: "agent s1 = (agent s)\<lparr>memory := ER_append (memory (agent s)) tr\<rparr>"
    by simp_all
  have sz: "size_b (memory (agent s1)) = size_b (memory (agent s))"
    by (simp add: ag1 ER_append_def Let_def)
  have len: "length (buffer (memory (agent s1))) = min (total_step s1) (size_b (memory (agent s1)))"
    using Cons.prems(6)
    by (simp add: ag1 ts1 ER_append_def Let_def length_deque_append_eq min_def)
  have "\<exists>s' g'. train_loop s1 trs g1 = Inr (s', g')"
    using Cons.prems(1-5,7,8) sz len by (intro Cons.IH) (simp_all add: ag1)
  with body show ?case by auto
qed

lemma train_Agent_init_total: "\<exists>s g'. train (Agent_init :: 's Agent) trs g = Inr (s, g')"
proof -
  let ?s0 = "\<lparr>agent = Agent_init :: 's Agent, total_step = 0, trace = []\<rparr>"
  have "\<exists>s g'. train_loop ?s0 trs g = Inr (s, g')"
    by (rule train_loop_total) (simp_all add: Agent_init_def ER_init_def)
  then show ?thesis by (simp add: train_def Agent_init_def)
qed

text \<open>
  C7, as the code has it. The warm-up gate of \<^verbatim>\<open>Agent.train\<close> is on the step counter:
  in a run that starts with an empty memory, a learner update happens at exactly the
  steps \<open>t\<close> (values of \<open>total_step\<close>) that the run has reached with
  \<open>t mod update_frequency = 0\<close> and \<open>replay_start_size < t\<close>, and a target sync at
  exactly those with \<open>t mod target_network_update_freq = 0\<close> and
  \<open>replay_start_size < t\<close>; the memory then holds \<open>min (t + 1) size\<close> transitions. So
  neither happens at a step up to \<open>replay_start_size\<close>.
\<close>

theorem learn_sync_cadence:
  assumes "buffer (memory a) = []" and "train a trs g = Inr (s, g')"
  shows "(\<forall>t n. LEARN t n \<in> set (trace s) \<longleftrightarrow>
            t < total_step s \<and> t mod update_frequency a = 0 \<and> replay_start_size a < t
            \<and> n = min (Suc t) (size_b (memory a)))
       \<and> (\<forall>t n. SYNC t n \<in> set (trace s) \<longleftrightarrow>
            t < total_step s \<and> t mod target_network_update_freq a = 0 \<and> replay_start_size a < t
            \<and> n = min (Suc t) (size_b (memory a)))
       \<and> total_step s \<le> length trs
       \<and> ((\<forall>tr \<in> set trs. \<not> done_t tr) \<and> 0 < training_frames a \<longrightarrow> total_step s = length trs)"
proof -
  from train_Inr [OF assms] have le: "total_step s \<le> length trs"
    and all: "(\<forall>tr \<in> set trs. \<not> done_t tr) \<and> 0 < training_frames a \<longrightarrow> total_step s = length trs"
    and tr: "trace s = concat (map (\<lambda>i. events_at a i (min (Suc i) (size_b (memory a))))
                             [0..<total_step s])"
    by simp_all
  have l: "LEARN t n \<in> set (trace s) \<longleftrightarrow>
            t < total_step s \<and> t mod update_frequency a = 0 \<and> replay_start_size a < t
            \<and> n = min (Suc t) (size_b (memory a))" for t n
    unfolding tr by (auto simp: LEARN_events_at)
  have y: "SYNC t n \<in> set (trace s) \<longleftrightarrow>
            t < total_step s \<and> t mod target_network_update_freq a = 0 \<and> replay_start_size a < t
            \<and> n = min (Suc t) (size_b (memory a))" for t n
    unfolding tr by (auto simp: SYNC_events_at)
  from l y le all show ?thesis by blast
qed

theorem learn_sync_cadence_witness:
  "buffer (memory (Agent_init :: nat Agent)) = []
   \<and> (case train (Agent_init :: nat Agent)
          (replicate 1001 \<lparr>state = 4, action = 0, reward = 0, done_t = False, new_state = 5\<rparr>)
          \<lparr>draws = \<lambda>k. 9 / 10, pos = 0\<rparr> of
        Inl e \<Rightarrow> False
      | Inr (s, g') \<Rightarrow>
          total_step s = 1001
          \<and> LEARN 252 200 \<in> set (trace s) \<and> LEARN 256 200 \<in> set (trace s)
          \<and> LEARN 248 200 \<notin> set (trace s) \<and> LEARN 253 200 \<notin> set (trace s)
          \<and> SYNC 1000 200 \<in> set (trace s) \<and> SYNC 0 1 \<notin> set (trace s))"
proof -
  let ?trs = "replicate 1001 \<lparr>state = 4 :: nat, action = 0, reward = 0, done_t = False, new_state = 5\<rparr>"
  let ?g = "\<lparr>draws = \<lambda>k. 9 / 10, pos = 0\<rparr>"
  from train_Agent_init_total [of ?trs ?g] obtain s g'
    where run: "train (Agent_init :: nat Agent) ?trs ?g = Inr (s, g')" by blast
  have empty: "buffer (memory (Agent_init :: nat Agent)) = []"
    by (simp add: Agent_init_def ER_init_def)
  have c: "update_frequency (Agent_init :: nat Agent) = 4"
    "target_network_update_freq (Agent_init :: nat Agent) = 1000"
    "replay_start_size (Agent_init :: nat Agent) = 250"
    "size_b (memory (Agent_init :: nat Agent)) = 200"
    "0 < training_frames (Agent_init :: nat Agent)"
    by (simp_all add: Agent_init_def ER_init_def)
  from learn_sync_cadence [OF empty run]
  have "total_step s = 1001
          \<and> LEARN 252 200 \<in> set (trace s) \<and> LEARN 256 200 \<in> set (trace s)
          \<and> LEARN 248 200 \<notin> set (trace s) \<and> LEARN 253 200 \<notin> set (trace s)
          \<and> SYNC 1000 200 \<in> set (trace s) \<and> SYNC 0 1 \<notin> set (trace s)"
    by (simp add: c)
  with empty show ?thesis by (simp add: run)
qed

text \<open>
  C7, as the specification states it, fails: the gate does not look at the memory. The agent as
  constructed has a memory of capacity 200 and \<open>replay_start_size\<close> 250; at step 252
  a learner update happens while the memory holds 200 transitions.
\<close>

theorem learn_below_replay_start_size:
  "case train (Agent_init :: nat Agent)
          (replicate 253 \<lparr>state = 4, action = 0, reward = 0, done_t = False, new_state = 5\<rparr>)
          \<lparr>draws = \<lambda>k. 9 / 10, pos = 0\<rparr> of
     Inl e \<Rightarrow> False
   | Inr (s, g') \<Rightarrow> LEARN 252 200 \<in> set (trace s) \<and> 200 < replay_start_size (agent s)"
proof -
  let ?trs = "replicate 253 \<lparr>state = 4 :: nat, action = 0, reward = 0, done_t = False, new_state = 5\<rparr>"
  let ?g = "\<lparr>draws = \<lambda>k. 9 / 10, pos = 0\<rparr>"
  from train_Agent_init_total [of ?trs ?g] obtain s g'
    where run: "train (Agent_init :: nat Agent) ?trs ?g = Inr (s, g')" by blast
  have empty: "buffer (memory (Agent_init :: nat Agent)) = []"
    by (simp add: Agent_init_def ER_init_def)
  from train_Inr [OF empty run] have ts: "total_step s = 253"
    and tr: "trace s = concat (map (\<lambda>i. events_at (Agent_init :: nat Agent) i
                (min (Suc i) (size_b (memory (Agent_init :: nat Agent))))) [0..<total_step s])"
    and ag: "agent s = Agent_init\<lparr>memory := foldl ER_append (memory Agent_init)
                (take (total_step s) ?trs)\<rparr>"
    by (simp_all add: Agent_init_def)
  have "LEARN 252 200 \<in> set (events_at (Agent_init :: nat Agent) 252
                (min (Suc 252) (size_b (memory (Agent_init :: nat Agent)))))"
    by (simp add: LEARN_events_at) (simp add: Agent_init_def ER_init_def)
  then have "LEARN 252 200 \<in> set (trace s)"
    unfolding tr ts by (auto intro!: bexI [of _ 252])
  moreover have "200 < replay_start_size (agent s)"
    by (simp add: ag) (simp add: Agent_init_def)
  ultimately show ?thesis by (simp add: run)
qed

section \<open>Sampling from the prioritized buffer\<close>

text \<open>
  The cumulative sums, the lookup of a variate in them, and the rounds of the sampling
  loop: every round adds at least one index, all indices found are distinct positions
  of positive probability, and the first index found is the one whose interval of the
  cumulative sums holds the first variate.
\<close>

lemma length_cumsum_from: "length (cumsum_from a xs) = length xs"
  by (induction xs arbitrary: a) simp_all

lemma nth_cumsum_from:
  "i < length xs \<Longrightarrow> cumsum_from a xs ! i = a + sum_list (take (Suc i) xs)"
proof (induction xs arbitrary: a i)
  case Nil
  then show ?case by simp
next
  case (Cons x xs)
  show ?case
  proof (cases i)
    case 0
    then show ?thesis by simp
  next
    case (Suc j)
    with Cons.prems have "j < length xs" by simp
    from Cons.IH [OF this, of "a + x"] Suc show ?thesis by simp
  qed
qed

lemma length_cumsum: "length (cumsum xs) = length xs"
  by (simp add: cumsum_def length_cumsum_from)

lemma nth_cumsum: "i < length xs \<Longrightarrow> cumsum xs ! i = sum_list (take (Suc i) xs)"
  by (simp add: cumsum_def nth_cumsum_from)

lemma last_cumsum: "xs \<noteq> [] \<Longrightarrow> last (cumsum xs) = sum_list xs"
proof -
  assume ne: "xs \<noteq> []"
  then have "cumsum xs \<noteq> []" using length_cumsum [of xs] by auto
  then have "last (cumsum xs) = cumsum xs ! (length xs - 1)"
    by (simp add: last_conv_nth length_cumsum)
  also have "\<dots> = sum_list (take (Suc (length xs - 1)) xs)"
    using ne by (intro nth_cumsum) simp
  finally show ?thesis using ne by simp
qed

lemma searchsorted_right_spec:
  "(searchsorted_right cdf x < length cdf \<longrightarrow> x < cdf ! searchsorted_right cdf x)
   \<and> (\<forall>j < searchsorted_right cdf x. cdf ! j \<le> x)"
proof -
  let ?k = "length (takeWhile (\<lambda>c. c \<le> x) cdf)"
  have a: "?k < length cdf \<longrightarrow> x < cdf ! ?k"
    using nth_length_takeWhile [of "\<lambda>c. c \<le> x" cdf] by auto
  have b: "\<forall>j < ?k. cdf ! j \<le> x"
  proof (intro allI impI)
    fix j assume j: "j < ?k"
    then have "takeWhile (\<lambda>c. c \<le> x) cdf ! j = cdf ! j" by (rule takeWhile_nth)
    moreover from j have "takeWhile (\<lambda>c. c \<le> x) cdf ! j \<in> set (takeWhile (\<lambda>c. c \<le> x) cdf)"
      by simp
    then have "takeWhile (\<lambda>c. c \<le> x) cdf ! j \<le> x" by (auto dest: set_takeWhileD)
    ultimately show "cdf ! j \<le> x" by simp
  qed
  from a b show ?thesis by (simp add: searchsorted_right_def)
qed

lemma searchsorted_right_le: "searchsorted_right cdf x \<le> length cdf"
  by (simp add: searchsorted_right_def length_takeWhile_le)

lemma searchsorted_cdf:
  assumes nonneg: "\<forall>q \<in> set p. 0 \<le> q" and pos: "0 < sum_list p"
    and x: "0 \<le> x" "x < 1"
  shows "searchsorted_right (map (\<lambda>c. c / last (cumsum p)) (cumsum p)) x < length p
       \<and> 0 < p ! searchsorted_right (map (\<lambda>c. c / last (cumsum p)) (cumsum p)) x
       \<and> sum_list (take (searchsorted_right (map (\<lambda>c. c / last (cumsum p)) (cumsum p)) x) p)
           \<le> x * sum_list p
       \<and> x * sum_list p
           < sum_list (take (Suc (searchsorted_right (map (\<lambda>c. c / last (cumsum p)) (cumsum p)) x)) p)"
proof -
  let ?S = "sum_list p"
  let ?cdf = "map (\<lambda>c. c / last (cumsum p)) (cumsum p)"
  let ?k = "searchsorted_right ?cdf x"
  from pos have ne: "p \<noteq> []" by auto
  have last: "last (cumsum p) = ?S" by (rule last_cumsum [OF ne])
  have len: "length ?cdf = length p" by (simp add: length_cumsum)
  have nth: "?cdf ! i = sum_list (take (Suc i) p) / ?S" if "i < length p" for i
    using that by (simp add: last nth_cumsum length_cumsum)
  have klt: "?k < length p"
  proof (rule ccontr)
    assume "\<not> ?k < length p"
    with searchsorted_right_le [of ?cdf x] len have k: "?k = length p" by simp
    from ne have "length p - 1 < ?k" by (simp add: k)
    with searchsorted_right_spec [of ?cdf x] have "?cdf ! (length p - 1) \<le> x" by blast
    moreover have "?cdf ! (length p - 1) = 1"
      using ne pos by (simp add: nth)
    ultimately show False using x(2) by simp
  qed
  with searchsorted_right_spec [of ?cdf x] len have "x < ?cdf ! ?k" by simp
  with klt have "x < sum_list (take (Suc ?k) p) / ?S" by (simp add: nth)
  with pos have hi: "x * ?S < sum_list (take (Suc ?k) p)"
    by (simp add: pos_less_divide_eq)
  have lo: "sum_list (take ?k p) \<le> x * ?S"
  proof (cases ?k)
    case 0
    with x(1) pos show ?thesis by simp
  next
    case (Suc j)
    then have "j < ?k" by simp
    with searchsorted_right_spec [of ?cdf x] have "?cdf ! j \<le> x" by blast
    moreover from Suc klt have "j < length p" by simp
    ultimately have "sum_list (take (Suc j) p) / ?S \<le> x" by (simp add: nth)
    with pos have "sum_list (take (Suc j) p) \<le> x * ?S" by (simp add: pos_divide_le_eq)
    with Suc show ?thesis by simp
  qed
  have "sum_list (take (Suc ?k) p) = sum_list (take ?k p) + p ! ?k"
    using klt by (simp add: take_Suc_conv_app_nth)
  with lo hi have "0 < p ! ?k" by simp
  with klt lo hi show ?thesis by simp
qed

lemma length_zero_found: "length (zero_found p found) = length p"
  unfolding zero_found_def by (induction found arbitrary: p) simp_all

lemma nth_zero_found:
  "i < length p \<Longrightarrow> zero_found p found ! i = (if i \<in> set found then 0 else p ! i)"
  unfolding zero_found_def
proof (induction found arbitrary: p)
  case Nil
  then show ?case by simp
next
  case (Cons k found)
  from Cons.prems have "i < length (p[k := 0])" by simp
  from Cons.IH [OF this] Cons.prems show ?case
    by (auto simp: nth_list_update)
qed

lemma set_unique_first: "set (unique_first xs) = set xs"
  by (simp add: unique_first_def)

lemma distinct_unique_first: "distinct (unique_first xs)"
  by (simp add: unique_first_def)

lemma length_unique_first: "length (unique_first xs) \<le> length xs"
  using length_remdups_leq [of "rev xs"] by (simp add: unique_first_def)

lemma hd_unique_first: "xs \<noteq> [] \<Longrightarrow> hd (unique_first xs) = hd xs"
proof (cases xs)
  case Nil
  assume "xs \<noteq> []"
  with Nil show ?thesis by simp
next
  case (Cons x ys)
  have "remdups (zs @ [x]) = remdups (filter (\<lambda>z. z \<noteq> x) zs) @ [x]" for zs
    by (induction zs) auto
  then show ?thesis by (simp add: unique_first_def Cons)
qed

lemma rand_range: "\<forall>u \<in> set (fst (rand k g)). 0 \<le> u \<and> u < 1"
  by (induction k arbitrary: g) (auto simp: random_sample_range)

lemma hd_rand: "0 < k \<Longrightarrow> hd (fst (rand k g)) = fst (random_sample g)"
  by (cases k) simp_all

lemma draw_new_spec:
  assumes "\<forall>q \<in> set p. 0 \<le> q" and "0 < sum_list p" and "\<forall>u \<in> set x. 0 \<le> u \<and> u < 1"
  shows "distinct (draw_new p x) \<and> length (draw_new p x) \<le> length x
       \<and> (\<forall>k \<in> set (draw_new p x). k < length p \<and> 0 < p ! k)
       \<and> (x \<noteq> [] \<longrightarrow> draw_new p x \<noteq> []
            \<and> sum_list (take (hd (draw_new p x)) p) \<le> hd x * sum_list p
            \<and> hd x * sum_list p < sum_list (take (Suc (hd (draw_new p x))) p))"
proof -
  let ?f = "searchsorted_right (map (\<lambda>c. c / last (cumsum p)) (cumsum p))"
  have dn: "draw_new p x = unique_first (map ?f x)"
    by (simp add: draw_new_def Let_def)
  have each: "?f u < length p \<and> 0 < p ! ?f u
       \<and> sum_list (take (?f u) p) \<le> u * sum_list p
       \<and> u * sum_list p < sum_list (take (Suc (?f u)) p)" if "u \<in> set x" for u
    using searchsorted_cdf [OF assms(1,2), of u] assms(3) that by blast
  have a: "distinct (draw_new p x)" by (simp add: dn distinct_unique_first)
  have b: "length (draw_new p x) \<le> length x"
    using length_unique_first [of "map ?f x"] by (simp add: dn)
  have c: "\<forall>k \<in> set (draw_new p x). k < length p \<and> 0 < p ! k"
    using each by (auto simp: dn set_unique_first)
  have d: "draw_new p x \<noteq> []
            \<and> sum_list (take (hd (draw_new p x)) p) \<le> hd x * sum_list p
            \<and> hd x * sum_list p < sum_list (take (Suc (hd (draw_new p x))) p)" if ne: "x \<noteq> []"
  proof -
    from ne have hd: "hd (draw_new p x) = ?f (hd x)"
      by (simp add: dn hd_unique_first hd_map)
    from ne have "hd x \<in> set x" by simp
    from each [OF this] draw_new_nonempty [OF ne, of p] show ?thesis by (simp add: hd)
  qed
  from a b c d show ?thesis by blast
qed

lemma sum_list_pos_elem:
  "\<forall>q \<in> set xs. (0::real) \<le> q \<Longrightarrow> x \<in> set xs \<Longrightarrow> 0 < x \<Longrightarrow> 0 < sum_list xs"
proof (induction xs)
  case Nil
  then show ?case by simp
next
  case (Cons y ys)
  have ys: "0 \<le> sum_list ys" using Cons.prems(1) by (intro sum_list_nonneg) simp
  show ?case
  proof (cases "x = y")
    case True
    with Cons.prems(3) ys show ?thesis by (simp add: add_pos_nonneg)
  next
    case False
    with Cons.prems have "0 < sum_list ys" by (intro Cons.IH) simp_all
    moreover from Cons.prems(1) have "0 \<le> y" by simp
    ultimately show ?thesis by (simp add: add_nonneg_pos)
  qed
qed

lemma positive_left:
  assumes "distinct found" and "\<forall>k \<in> set found. k < length p0 \<and> (0::real) < p0 ! k"
    and "length found < length (filter (\<lambda>q. 0 < q) p0)"
  shows "\<exists>i < length p0. i \<notin> set found \<and> 0 < p0 ! i"
proof (rule ccontr)
  assume "\<not> (\<exists>i < length p0. i \<notin> set found \<and> 0 < p0 ! i)"
  then have "{i. i < length p0 \<and> 0 < p0 ! i} \<subseteq> set found" by auto
  then have "card {i. i < length p0 \<and> 0 < p0 ! i} \<le> card (set found)"
    by (intro card_mono) simp_all
  also have "\<dots> = length found" using assms(1) by (rule distinct_card)
  finally show False
    using assms(3) by (simp add: length_filter_conv_card)
qed

lemma choice_loop_prefix: "\<exists>more. fst (choice_loop n p found g) = found @ more"
proof (induction n p found g rule: choice_loop.induct)
  case (1 n p found g)
  show ?case
  proof (cases "length found < n")
    case True
    from "1.IH" [OF True] show ?thesis
      by (subst choice_loop.simps) (auto simp: True)
  next
    case False
    then show ?thesis by (subst choice_loop.simps) simp
  qed
qed

lemma rand_variates: "rand k g = (variates g k, g\<lparr>pos := pos g + k\<rparr>)"
proof (induction k arbitrary: g)
  case 0
  show ?case by (simp add: variates_def)
next
  case (Suc k)
  have "variates g (Suc k)
          = frac (draws g (pos g)) # variates (g\<lparr>pos := Suc (pos g)\<rparr>) k"
    by (simp add: variates_def upt_conv_Cons map_Suc_upt [symmetric] del: upt_Suc)
  with Suc [of "g\<lparr>pos := Suc (pos g)\<rparr>"] show ?case
    by (simp add: random_sample_def)
qed

lemma choice_loop_spec:
  assumes "\<forall>q \<in> set p0. 0 \<le> q" and "n \<le> length (filter (\<lambda>q. 0 < q) p0)"
    and "length p = length p0"
    and "\<forall>i < length p0. (if 0 < length found then zero_found p found else p) ! i
                           = (if i \<in> set found then 0 else p0 ! i)"
    and "distinct found" and "\<forall>k \<in> set found. k < length p0 \<and> 0 < p0 ! k"
    and "length found \<le> n"
  shows "distinct (fst (choice_loop n p found g))
       \<and> length (fst (choice_loop n p found g)) = n
       \<and> (\<forall>k \<in> set (fst (choice_loop n p found g)). k < length p0 \<and> 0 < p0 ! k)
       \<and> draws_distinct n p0 found g (fst (choice_loop n p found g))
             (snd (choice_loop n p found g))"
  using assms(2-7)
proof (induction n p found g rule: choice_loop.induct)
  case (1 n p found g)
  show ?case
  proof (cases "length found < n")
    case False
    then have stop: "choice_loop n p found g = (found, g)"
      by (subst choice_loop.simps) simp
    from False have "draws_distinct n p0 found g found g"
      by (intro draws_distinct.finish) simp
    with False "1.prems" show ?thesis by (simp add: stop)
  next
    case True
    let ?p = "if 0 < length found then zero_found p found else p"
    let ?x = "fst (rand (n - length found) g)"
    let ?new = "draw_new ?p ?x"
    have lenp: "length ?p = length p0"
      using "1.prems"(2) by (simp add: length_zero_found)
    have cur: "?p ! i = (if i \<in> set found then 0 else p0 ! i)" if "i < length p0" for i
      using "1.prems"(3) that by blast
    have nonneg: "\<forall>q \<in> set ?p. 0 \<le> q"
    proof
      fix q assume "q \<in> set ?p"
      then obtain i where i: "i < length ?p" and q: "q = ?p ! i"
        by (auto simp: in_set_conv_nth)
      from i lenp have "i < length p0" by simp
      from cur [OF this] this assms(1) show "0 \<le> q" by (auto simp: q)
    qed
    from True "1.prems"(1) have "length found < length (filter (\<lambda>q. 0 < q) p0)" by simp
    from positive_left [OF "1.prems"(4,5) this] obtain i
      where i: "i < length p0" "i \<notin> set found" "0 < p0 ! i" by blast
    from cur [OF i(1)] i have "0 < ?p ! i" by simp
    moreover from i(1) lenp have "?p ! i \<in> set ?p" by simp
    ultimately have pos: "0 < sum_list ?p" using nonneg by (intro sum_list_pos_elem [of ?p "?p ! i"])
    from draw_new_spec [OF nonneg pos rand_range [of "n - length found" g]]
    have dnew: "distinct ?new" and lnew: "length ?new \<le> n - length found"
      and snew: "\<forall>k \<in> set ?new. k < length ?p \<and> 0 < ?p ! k"
      by (simp_all add: length_rand)
    have fresh: "k < length p0 \<and> k \<notin> set found \<and> 0 < p0 ! k" if "k \<in> set ?new" for k
    proof -
      from snew that lenp have k: "k < length p0" "0 < ?p ! k" by auto
      from cur [OF k(1)] k(2) show ?thesis using k(1) by (auto split: if_splits)
    qed
    have step: "choice_loop n p found g
                  = choice_loop n ?p (found @ ?new) (snd (rand (n - length found) g))"
      by (subst choice_loop.simps) (simp add: True)
    have ih: "distinct (fst (choice_loop n ?p (found @ ?new) (snd (rand (n - length found) g))))
       \<and> length (fst (choice_loop n ?p (found @ ?new) (snd (rand (n - length found) g)))) = n
       \<and> (\<forall>k \<in> set (fst (choice_loop n ?p (found @ ?new) (snd (rand (n - length found) g)))).
             k < length p0 \<and> 0 < p0 ! k)
       \<and> draws_distinct n p0 (found @ ?new) (snd (rand (n - length found) g))
             (fst (choice_loop n ?p (found @ ?new) (snd (rand (n - length found) g))))
             (snd (choice_loop n ?p (found @ ?new) (snd (rand (n - length found) g))))"
    proof (rule "1.IH" [OF True])
      show "n \<le> length (filter (\<lambda>q. 0 < q) p0)" by (rule "1.prems"(1))
      show "length ?p = length p0" by (rule lenp)
      show "\<forall>i < length p0. (if 0 < length (found @ ?new) then zero_found ?p (found @ ?new) else ?p) ! i
                           = (if i \<in> set (found @ ?new) then 0 else p0 ! i)"
      proof (intro allI impI)
        fix i assume i: "i < length p0"
        have "?x \<noteq> []"
          using True length_rand [of "n - length found" g] by auto
        then have "?new \<noteq> []" by (rule draw_new_nonempty)
        then have ne: "0 < length (found @ ?new)" by simp
        from i lenp have "zero_found ?p (found @ ?new) ! i
                            = (if i \<in> set (found @ ?new) then 0 else ?p ! i)"
          by (intro nth_zero_found) simp
        with cur [OF i] ne
        show "(if 0 < length (found @ ?new) then zero_found ?p (found @ ?new) else ?p) ! i
                           = (if i \<in> set (found @ ?new) then 0 else p0 ! i)"
          by auto
      qed
      show "distinct (found @ ?new)"
        using "1.prems"(4) dnew fresh by auto
      show "\<forall>k \<in> set (found @ ?new). k < length p0 \<and> 0 < p0 ! k"
        using "1.prems"(5) fresh by auto
      show "length (found @ ?new) \<le> n"
        using lnew True by simp
    qed
    let ?f = "searchsorted_right (map (\<lambda>c. c / last (cumsum ?p)) (cumsum ?p))"
    have wo: "?p = without p0 found"
    proof (rule nth_equalityI)
      show "length ?p = length (without p0 found)"
        unfolding lenp by (simp add: without_def)
      fix i assume "i < length ?p"
      then have i: "i < length p0" unfolding lenp .
      then have "without p0 found ! i = (if i \<in> set found then 0 else p0 ! i)"
        by (simp add: without_def)
      with cur [OF i] show "?p ! i = without p0 found ! i" by (simp only:)
    qed
    have new: "?new = unique_first (map ?f ?x)"
      by (simp add: draw_new_def Let_def)
    have x: "?x = variates g (n - length found)"
      and g': "snd (rand (n - length found) g) = g\<lparr>pos := pos g + (n - length found)\<rparr>"
      by (simp_all add: rand_variates)
    have "list_all2 (selects ?p) ?x (map ?f ?x)"
    proof (rule list_all2_all_nthI)
      show "length ?x = length (map ?f ?x)" by simp
      fix t assume "t < length ?x"
      then have "?x ! t \<in> set ?x" by simp
      with rand_range [of "n - length found" g] have "0 \<le> ?x ! t" "?x ! t < 1" by auto
      from searchsorted_cdf [OF nonneg pos this] \<open>t < length ?x\<close>
      show "selects ?p (?x ! t) (map ?f ?x ! t)" by (simp add: selects_def)
    qed
    then have sel: "list_all2 (selects (without p0 found)) (variates g (n - length found))
                      (map ?f ?x)"
      by (simp only: wo [symmetric] x [symmetric])
    from ih have "draws_distinct n p0 (found @ unique_first (map ?f ?x))
             (g\<lparr>pos := pos g + (n - length found)\<rparr>)
             (fst (choice_loop n p found g)) (snd (choice_loop n p found g))"
      by (simp only: step new [symmetric] g' [symmetric])
    with True sel have "draws_distinct n p0 found g
             (fst (choice_loop n p found g)) (snd (choice_loop n p found g))"
      by (rule draws_distinct.round)
    with ih show ?thesis unfolding step by simp
  qed
qed


lemma prefix_sum_mono:
  assumes "\<forall>q \<in> set w. (0 :: real) \<le> q" and "i \<le> j"
  shows "sum_list (take i w) \<le> sum_list (take j w)"
proof -
  from assms(2) have "take j w = take i w @ take (j - i) (drop i w)"
    using take_add [of i "j - i" w] by simp
  moreover have "0 \<le> sum_list (take (j - i) (drop i w))"
  proof (rule sum_list_nonneg)
    fix q assume "q \<in> set (take (j - i) (drop i w))"
    then have "q \<in> set w" by (blast dest: in_set_takeD in_set_dropD)
    with assms(1) show "0 \<le> q" by blast
  qed
  ultimately show ?thesis by simp
qed

lemma selects_unique:
  assumes "\<forall>q \<in> set w. 0 \<le> q" and "selects w u i" and "selects w u j"
  shows "i = j"
proof -
  have no: False if "selects w u a" and "selects w u b" and "a < b" for a b
  proof -
    from that(3) have "sum_list (take (Suc a) w) \<le> sum_list (take b w)"
      by (intro prefix_sum_mono [OF assms(1)]) simp
    moreover from that(1) have "u * sum_list w < sum_list (take (Suc a) w)"
      by (simp add: selects_def)
    moreover from that(2) have "sum_list (take b w) \<le> u * sum_list w"
      by (simp add: selects_def)
    ultimately show False by linarith
  qed
  from no [OF assms(2,3)] no [OF assms(3,2)] show ?thesis by (cases i j rule: linorder_cases) auto
qed

lemma without_nonneg: "\<forall>q \<in> set w. 0 \<le> q \<Longrightarrow> \<forall>q \<in> set (without w found). 0 \<le> q"
  by (auto simp: without_def)

lemma draws_distinct_unique:
  assumes "\<forall>q \<in> set w. 0 \<le> q" and "draws_distinct n w found g res g'"
    and "draws_distinct n w found g res2 g2"
  shows "res2 = res \<and> g2 = g'"
  using assms(2,3)
proof (induction arbitrary: res2 g2 rule: draws_distinct.induct)
  case (finish found g)
  from finish.prems finish.hyps show ?case
    by (cases rule: draws_distinct.cases) simp_all
next
  case (round found g cands res g')
  from round.prems show ?case
  proof (cases rule: draws_distinct.cases)
    case finish
    with round.hyps(1) show ?thesis by simp
  next
    case other: (round cands2)
    have "cands2 = cands"
    proof (rule nth_equalityI)
      from other(2) round.hyps(2) show len: "length cands2 = length cands"
        by (simp add: list_all2_lengthD [symmetric])
      fix t assume t: "t < length cands2"
      with other(2) have "t < length (variates g (n - length found))"
        by (simp add: list_all2_lengthD)
      with other(2) round.hyps(2)
      have "selects (without w found) (variates g (n - length found) ! t) (cands2 ! t)"
        and "selects (without w found) (variates g (n - length found) ! t) (cands ! t)"
        by (simp_all add: list_all2_nthD)
      from selects_unique [OF without_nonneg [OF assms(1)] this]
      show "cands2 ! t = cands ! t" .
    qed
    with other(3) round.IH show ?thesis by simp
  qed
qed

lemma choice_loop_first:
  assumes "\<forall>q \<in> set p. 0 \<le> q" and "0 < sum_list p" and "0 < n"
  shows "sum_list (take (hd (fst (choice_loop n p [] g))) p) \<le> fst (random_sample g) * sum_list p
       \<and> fst (random_sample g) * sum_list p
            < sum_list (take (Suc (hd (fst (choice_loop n p [] g)))) p)"
proof -
  let ?x = "fst (rand n g)"
  let ?new = "draw_new p ?x"
  have step: "choice_loop n p [] g = choice_loop n p ([] @ ?new) (snd (rand n g))"
    using assms(3) by (subst choice_loop.simps) simp
  from choice_loop_prefix [of n p "[] @ ?new" "snd (rand n g)"] obtain more
    where more: "fst (choice_loop n p [] g) = ?new @ more"
    unfolding step by auto
  from assms(3) have x: "?x \<noteq> []" using length_rand [of n g] by auto
  from draw_new_spec [OF assms(1,2) rand_range [of n g]] x
  have ne: "?new \<noteq> []"
    and lo: "sum_list (take (hd ?new) p) \<le> hd ?x * sum_list p"
    and hi: "hd ?x * sum_list p < sum_list (take (Suc (hd ?new)) p)"
    by simp_all
  from ne more have "hd (fst (choice_loop n p [] g)) = hd ?new" by simp
  with lo hi hd_rand [OF assms(3), of g] show ?thesis by simp
qed

lemma choice_Inr:
  assumes "choice pop_size n p g = Inr (res, g')"
  shows "length p = pop_size \<and> (\<forall>q \<in> set p. 0 \<le> q) \<and> \<bar>sum_list p - 1\<bar> \<le> atol
       \<and> n \<le> pop_size \<and> n \<le> length (filter (\<lambda>q. 0 < q) p)
       \<and> choice_loop n p [] g = (res, g')"
  using assms by (auto simp: choice_def split: if_splits)

lemma choice_small_population: "pop_size < n \<Longrightarrow> choice pop_size n p g = Inl ValueError"
  by (simp add: choice_def)

lemma sum_list_divide: "(\<Sum>x \<leftarrow> xs. f x / c) = (\<Sum>x \<leftarrow> xs. f x) / (c :: real)"
  by (induction xs) (simp_all add: add_divide_distrib)

lemma choice_total:
  assumes "length p = pop_size" and "\<forall>q \<in> set p. 0 < q" and "sum_list p = 1"
    and "n \<le> pop_size"
  shows "choice pop_size n p g = Inr (choice_loop n p [] g)"
proof -
  from assms(3) have ne: "p \<noteq> []" by auto
  with assms(1) have "pop_size \<noteq> 0" by auto
  moreover have "\<not> (\<exists>q \<in> set p. q < 0)" using assms(2) by force
  moreover have "filter (\<lambda>q. 0 < q) p = p" using assms(2) by (simp add: filter_id_conv)
  ultimately show ?thesis
    using assms(1,3,4) by (simp add: choice_def atol_def)
qed

text \<open>
  C5. In a state of the prioritized buffer, \<^verbatim>\<open>get_sample_indices\<close> raises whenever
  \<open>batch_size\<close> exceeds \<open>current_size\<close>. When it returns, it returns \<open>batch_size\<close>
  indices that are pairwise distinct, each the position of a stored transition of
  positive probability; the first index is the position whose interval of cumulative
  probabilities holds the first variate of the generator, an interval as long as the
  probability of that position. The whole result is the one that drawing distinct
  positions from the categorical distribution of the probabilities gives with the
  variates of the generator (\<open>draws_distinct\<close>: every variate selects the position whose
  interval holds it, among the positions not found in earlier rounds), and that
  drawing has no other result and leaves the generator in no other state. For positive
  priorities the
  probability of position \<open>i\<close> is \<open>priority i ^ alpha\<close> over the sum of all
  \<open>priority j ^ alpha\<close>, and the call returns whenever the buffer is not empty and
  \<open>batch_size\<close> is at most \<open>current_size\<close>.
\<close>

theorem PER_sampling:
  assumes "PER_wf b"
  shows "(current_size b < batch_size b \<longrightarrow> PER_get_sample_indices b g = Inl ValueError)
     \<and> (\<forall>indices b' g'. PER_get_sample_indices b g = Inr (indices, b', g') \<longrightarrow>
          length indices = batch_size b \<and> distinct indices
          \<and> (\<forall>i \<in> set indices. 0 \<le> i \<and> i < int (current_size b))
          \<and> (\<exists>probs. sampling_probs b = Some probs \<and> length probs = current_size b
               \<and> (\<forall>i \<in> set indices. 0 < probs ! nat i)
               \<and> (0 < batch_size b \<longrightarrow>
                    sum_list (take (nat (hd indices)) probs)
                      \<le> fst (random_sample g) * sum_list probs
                    \<and> fst (random_sample g) * sum_list probs
                      < sum_list (take (Suc (nat (hd indices))) probs))
               \<and> (\<exists>res. indices = map int res
                     \<and> draws_distinct (batch_size b) probs [] g res g'
                     \<and> (\<forall>res2 g2. draws_distinct (batch_size b) probs [] g res2 g2 \<longrightarrow>
                           res2 = res \<and> g2 = g'))))
     \<and> ((\<forall>p \<in> set (priorities b). 0 < p) \<longrightarrow>
          sampling_probs b =
            Some (map (\<lambda>p. p powr prob_alpha b / (\<Sum>q \<leftarrow> priorities b. q powr prob_alpha b))
                    (priorities b)))
     \<and> ((\<forall>p \<in> set (priorities b). 0 < p) \<and> 0 < current_size b
           \<and> batch_size b \<le> current_size b \<longrightarrow>
          (\<exists>indices g'. PER_get_sample_indices b g = Inr (indices, b, g')))"
proof -
  from assms have cs: "current_size b = length (buffer b)"
    and lp: "length (priorities b) = length (buffer b)"
    by (simp_all add: PER_wf_def)
  have fails: "PER_get_sample_indices b g = Inl ValueError" if "current_size b < batch_size b"
    using that by (simp add: PER_get_sample_indices_def cs choice_small_population split: option.splits)
  have succ: "length indices = batch_size b \<and> distinct indices
          \<and> (\<forall>i \<in> set indices. 0 \<le> i \<and> i < int (current_size b))
          \<and> (\<exists>probs. sampling_probs b = Some probs \<and> length probs = current_size b
               \<and> (\<forall>i \<in> set indices. 0 < probs ! nat i)
               \<and> (0 < batch_size b \<longrightarrow>
                    sum_list (take (nat (hd indices)) probs)
                      \<le> fst (random_sample g) * sum_list probs
                    \<and> fst (random_sample g) * sum_list probs
                      < sum_list (take (Suc (nat (hd indices))) probs))
               \<and> (\<exists>res. indices = map int res
                     \<and> draws_distinct (batch_size b) probs [] g res g'
                     \<and> (\<forall>res2 g2. draws_distinct (batch_size b) probs [] g res2 g2 \<longrightarrow>
                           res2 = res \<and> g2 = g')))"
    if run: "PER_get_sample_indices b g = Inr (indices, b', g')" for indices b' g'
  proof -
    from run obtain probs res where sp: "sampling_probs b = Some probs"
      and ch: "choice (length (buffer b)) (batch_size b) probs g = Inr (res, g')"
      and idx: "indices = map int res"
      by (auto simp: PER_get_sample_indices_def split: option.splits sum.splits)
    from choice_Inr [OF ch] have len: "length probs = length (buffer b)"
      and nonneg: "\<forall>q \<in> set probs. 0 \<le> q" and tol: "\<bar>sum_list probs - 1\<bar> \<le> atol"
      and cnt: "batch_size b \<le> length (filter (\<lambda>q. 0 < q) probs)"
      and loop: "choice_loop (batch_size b) probs [] g = (res, g')"
      by simp_all
    have "distinct (fst (choice_loop (batch_size b) probs [] g))
       \<and> length (fst (choice_loop (batch_size b) probs [] g)) = batch_size b
       \<and> (\<forall>k \<in> set (fst (choice_loop (batch_size b) probs [] g)).
             k < length probs \<and> 0 < probs ! k)
       \<and> draws_distinct (batch_size b) probs [] g
             (fst (choice_loop (batch_size b) probs [] g))
             (snd (choice_loop (batch_size b) probs [] g))"
      by (rule choice_loop_spec [OF nonneg cnt]) simp_all
    then have d: "distinct res" and l: "length res = batch_size b"
      and r: "\<forall>k \<in> set res. k < length probs \<and> 0 < probs ! k"
      and dd: "draws_distinct (batch_size b) probs [] g res g'"
      by (simp_all add: loop)
    from draws_distinct_unique [OF nonneg dd]
    have uniq: "\<forall>res2 g2. draws_distinct (batch_size b) probs [] g res2 g2 \<longrightarrow>
                  res2 = res \<and> g2 = g'"
      by blast
    have "atol < 1" by (simp add: atol_def)
    with tol have "0 < sum_list probs" by linarith
    from choice_loop_first [OF nonneg this, of "batch_size b" g]
    have first: "0 < batch_size b \<longrightarrow>
                    sum_list (take (hd res) probs) \<le> fst (random_sample g) * sum_list probs
                    \<and> fst (random_sample g) * sum_list probs < sum_list (take (Suc (hd res)) probs)"
      by (simp add: loop)
    have hd: "nat (hd indices) = hd res" if "0 < batch_size b"
      using that l by (cases res) (simp_all add: idx)
    have "distinct indices" using d by (simp add: idx distinct_map inj_on_def)
    moreover have "length indices = batch_size b" using l by (simp add: idx)
    moreover have "\<forall>i \<in> set indices. 0 \<le> i \<and> i < int (current_size b)"
      using r len by (auto simp: idx cs)
    moreover have "\<forall>i \<in> set indices. 0 < probs ! nat i"
      using r by (auto simp: idx)
    ultimately have "length indices = batch_size b \<and> distinct indices
          \<and> (\<forall>i \<in> set indices. 0 \<le> i \<and> i < int (current_size b))
          \<and> length probs = current_size b
          \<and> (\<forall>i \<in> set indices. 0 < probs ! nat i)
          \<and> (0 < batch_size b \<longrightarrow>
                    sum_list (take (nat (hd indices)) probs)
                      \<le> fst (random_sample g) * sum_list probs
                    \<and> fst (random_sample g) * sum_list probs
                      < sum_list (take (Suc (nat (hd indices))) probs))"
      using len first hd by (auto simp: cs)
    moreover from idx dd uniq have "\<exists>res. indices = map int res
                     \<and> draws_distinct (batch_size b) probs [] g res g'
                     \<and> (\<forall>res2 g2. draws_distinct (batch_size b) probs [] g res2 g2 \<longrightarrow>
                           res2 = res \<and> g2 = g')"
      by (intro exI [of _ res] conjI)
    ultimately show ?thesis using sp by (intro conjI exI [of _ probs]) (elim conjE, assumption)+
  qed
  have formula: "sampling_probs b =
            Some (map (\<lambda>p. p powr prob_alpha b / (\<Sum>q \<leftarrow> priorities b. q powr prob_alpha b))
                    (priorities b))" if "\<forall>p \<in> set (priorities b). 0 < p"
    by (rule sampling_probs_pos [OF that])
  have total: "\<exists>indices g'. PER_get_sample_indices b g = Inr (indices, b, g')"
    if pos: "\<forall>p \<in> set (priorities b). 0 < p" and ne: "0 < current_size b"
      and le: "batch_size b \<le> current_size b"
  proof -
    let ?S = "\<Sum>q \<leftarrow> priorities b. q powr prob_alpha b"
    let ?probs = "map (\<lambda>p. p powr prob_alpha b / ?S) (priorities b)"
    from ne cs lp have nonempty: "priorities b \<noteq> []" by auto
    have S: "0 < ?S" using nonempty pos by (intro sum_list_pos) auto
    have "sum_list ?probs = ?S / ?S" by (simp add: o_def sum_list_divide)
    with S have one: "sum_list ?probs = 1" by simp
    have allpos: "\<forall>q \<in> set ?probs. 0 < q"
    proof
      fix q assume "q \<in> set ?probs"
      then obtain p where "p \<in> set (priorities b)" and q: "q = p powr prob_alpha b / ?S" by auto
      with pos have "0 < p" by blast
      then have "0 < p powr prob_alpha b" by simp
      with S show "0 < q" by (simp add: q)
    qed
    have "choice (length (buffer b)) (batch_size b) ?probs g
            = Inr (choice_loop (batch_size b) ?probs [] g)"
      using allpos one le by (intro choice_total) (simp_all add: lp cs)
    then show ?thesis
      by (cases "choice_loop (batch_size b) ?probs [] g")
         (simp add: PER_get_sample_indices_def formula [OF pos])
  qed
  from fails succ formula total show ?thesis by blast
qed

text \<open>
  Three stored transitions with priorities 1, 1, 2 and exponent 1, batch size 2, every
  variate 0.9: the first round finds position 2 twice and keeps it once, the second
  round draws among the positions 0 and 1 and finds 1. The positions 2, 1 are what
  drawing from the distribution gives with these variates; the equally distinct,
  in range and positive 2, 0 are not. With batch size 4 the call raises.
\<close>

theorem PER_sampling_witness:
  "PER_wf \<lparr>size_b = 3, batch_size = 2, current_size = 3, buffer = [10, 11, 12 :: nat],
           priorities = [1, 1, 2], prob_alpha = 1, epsilon = 1 / 1000\<rparr>
   \<and> sampling_probs \<lparr>size_b = 3, batch_size = 2, current_size = 3, buffer = [10, 11, 12 :: nat],
           priorities = [1, 1, 2], prob_alpha = 1, epsilon = 1 / 1000\<rparr>
     = Some [1 / 4, 1 / 4, 1 / 2]
   \<and> PER_get_sample_indices
        \<lparr>size_b = 3, batch_size = 2, current_size = 3, buffer = [10, 11, 12 :: nat],
         priorities = [1, 1, 2], prob_alpha = 1, epsilon = 1 / 1000\<rparr>
        \<lparr>draws = \<lambda>k. 9 / 10, pos = 0\<rparr>
     = Inr ([2, 1],
        \<lparr>size_b = 3, batch_size = 2, current_size = 3, buffer = [10, 11, 12 :: nat],
         priorities = [1, 1, 2], prob_alpha = 1, epsilon = 1 / 1000\<rparr>,
        \<lparr>draws = \<lambda>k. 9 / 10, pos = 3\<rparr>)
   \<and> draws_distinct 2 [1 / 4, 1 / 4, 1 / 2] [] \<lparr>draws = \<lambda>k. 9 / 10, pos = 0\<rparr>
        [2, 1] \<lparr>draws = \<lambda>k. 9 / 10, pos = 3\<rparr>
   \<and> \<not> draws_distinct 2 [1 / 4, 1 / 4, 1 / 2] [] \<lparr>draws = \<lambda>k. 9 / 10, pos = 0\<rparr>
        [2, 0] \<lparr>draws = \<lambda>k. 9 / 10, pos = 3\<rparr>
   \<and> PER_get_sample_indices
        \<lparr>size_b = 3, batch_size = 4, current_size = 3, buffer = [10, 11, 12 :: nat],
         priorities = [1, 1, 2], prob_alpha = 1, epsilon = 1 / 1000\<rparr>
        \<lparr>draws = \<lambda>k. 9 / 10, pos = 0\<rparr>
     = Inl ValueError"
proof -
  define P where "P = \<lparr>size_b = 3, batch_size = 2, current_size = 3, buffer = [10, 11, 12 :: nat],
           priorities = [1, 1, 2], prob_alpha = 1, epsilon = 1 / 1000\<rparr>"
  define Q where "Q = \<lparr>size_b = 3, batch_size = 4, current_size = 3, buffer = [10, 11, 12 :: nat],
           priorities = [1, 1, 2], prob_alpha = 1, epsilon = 1 / 1000\<rparr>"
  define G where "G = (\<lambda>n. \<lparr>draws = \<lambda>k. 9 / 10 :: real, pos = n\<rparr>)"
  have wfP: "PER_wf P" and wfQ: "PER_wf Q" by (simp_all add: PER_wf_def P_def Q_def)
  have sp: "sampling_probs P = Some [1 / 4, 1 / 4, 1 / 2]"
    by (simp add: sampling_probs_def power_array_def np_power_def divide_by_sum_def P_def)
  have f: "frac (9 / 10 :: real) = 9 / 10" by (simp add: frac_eq)
  have rnd: "rand k (G n) = (replicate k (9 / 10), G (n + k))" for k n
    by (induction k arbitrary: n) (simp_all add: G_def random_sample_def f)
  have dn1: "draw_new [1 / 4, 1 / 4, 1 / 2] [9 / 10, 9 / 10] = [2]"
    by (simp add: draw_new_def cumsum_def searchsorted_right_def unique_first_def)
  have dn2: "draw_new (zero_found [1 / 4, 1 / 4, 1 / 2] [2]) [9 / 10] = [1]"
    by (simp add: draw_new_def cumsum_def searchsorted_right_def unique_first_def
        zero_found_def eval_nat_numeral)
  have c2: "choice_loop 2 p [i, j] g = ([i, j], g)" for p i j g
    by (subst choice_loop.simps) simp
  have c1: "choice_loop 2 [1 / 4, 1 / 4, 1 / 2] [2] (G m) = ([2, 1], G (Suc m))" for m
    by (subst choice_loop.simps) (simp add: rnd dn2 c2)
  have r2: "replicate 2 (9 / 10 :: real) = [9 / 10, 9 / 10]"
    by (simp add: eval_nat_numeral)
  have "choice_loop 2 [1 / 4, 1 / 4, 1 / 2] [] (G 0) = ([2, 1], G (Suc (Suc (Suc 0))))"
    by (subst choice_loop.simps) (simp add: rnd r2 dn1 c1)
  moreover have "Suc (Suc (Suc 0)) = 3" by simp
  ultimately have c0: "choice_loop 2 [1 / 4, 1 / 4, 1 / 2] [] (G 0) = ([2, 1], G 3)"
    by (simp only:)
  have ch: "choice 3 2 [1 / 4, 1 / 4, 1 / 2] (G 0) = Inr ([2, 1], G 3)"
    by (simp add: choice_def atol_def c0)
  have len: "length (buffer P) = 3" and bs: "batch_size P = 2" by (simp_all add: P_def)
  have "PER_get_sample_indices P (G 0) = Inr (map int [2, 1], P, G 3)"
    by (simp only: PER_get_sample_indices_def sp len bs ch option.case sum.case prod.case)
  then have run: "PER_get_sample_indices P (G 0) = Inr ([2, 1], P, G 3)" by simp
  from PER_sampling [OF wfQ, of "G 0"]
  have err: "PER_get_sample_indices Q (G 0) = Inl ValueError" by (simp add: Q_def)
  from PER_sampling [OF wfP, of "G 0", THEN conjunct2, THEN conjunct1, rule_format, OF run]
  obtain probs res where p1: "sampling_probs P = Some probs" and p2: "[2, 1] = map int res"
    and p3: "draws_distinct (batch_size P) probs [] (G 0) res (G 3)"
    and p4: "\<forall>res2 g2. draws_distinct (batch_size P) probs [] (G 0) res2 g2 \<longrightarrow>
           res2 = res \<and> g2 = G 3"
    by (elim conjE exE) (rule that, assumption+)
  from p1 have pr: "[1 / 4, 1 / 4, 1 / 2] = probs" unfolding sp by (simp only: option.inject)
  have m: "map int [2, 1] = [2, 1]" by simp
  from p2 have "map int [2, 1] = map int res" by (simp only: m)
  then have r: "[2, 1] = res" by (simp only: inj_map_eq_map [OF inj_of_nat])
  note yes = p3 [unfolded bs, folded pr r]
  have no: "\<not> draws_distinct 2 [1 / 4, 1 / 4, 1 / 2] [] (G 0) [2, 0] (G 3)"
  proof
    assume "draws_distinct 2 [1 / 4, 1 / 4, 1 / 2] [] (G 0) [2, 0] (G 3)"
    from p4 [unfolded bs, folded pr r, rule_format, OF this] show False by simp
  qed
  from wfP sp run err yes no show ?thesis unfolding P_def Q_def G_def by simp
qed

end
